theory Spec2Isabelle
  imports Main
begin

section \<open>Data model\<close>

text \<open>
  A \<open>Term*\<close> is an address into the store of allocated \<open>Term\<close> nodes; the null
  pointer is \<open>None\<close> of \<open>addr option\<close>. A node is the tagged union of the source:
  tag \<open>eVariable\<close> with the \<open>Variable\<close> struct, or tag \<open>eAtom\<close> with the \<open>Atom\<close>
  struct, whose \<open>mTerms\<close> is the array of ten pointers.
\<close>

type_synonym addr = nat

record Variable =
  mIsBound :: bool
  mReference :: "addr option"

record Atom =
  mName :: string
  mArity :: int
  mTerms :: "addr option list"

datatype Term = TVariable Variable | TAtom Atom

text \<open>
  The execution state: the nodes created by \<open>new Term()\<close> (a node's address is its
  position), the vector \<open>gTrail.mTrail\<close> (its back is the last element), and the
  characters written by \<open>printf\<close>.
\<close>

record state =
  heap :: "Term list"
  mTrail :: "addr list"
  out :: string

definition lookup :: "Term list \<Rightarrow> addr \<Rightarrow> Term option" where
  "lookup h a = (if a < length h then Some (h ! a) else None)"

section \<open>Deref\<close>

text \<open>
  The \<open>while\<close> loop of \<open>Deref\<close>. Following a null or dangling pointer has no
  defined result, and neither has a loop that never ends: both are \<open>None\<close>.
\<close>

partial_function (option) Deref :: "addr \<Rightarrow> Term list \<Rightarrow> addr option" where
  "Deref t h =
     (case lookup h t of
        None \<Rightarrow> None
      | Some (TAtom a) \<Rightarrow> Some t
      | Some (TVariable v) \<Rightarrow>
          (if mIsBound v
           then (case mReference v of None \<Rightarrow> None | Some r \<Rightarrow> Deref r h)
           else Some t))"

declare Deref.simps [code]

section \<open>Continuations and the trail\<close>

text \<open>
  \<open>Retry\<close> is \<open>std::function<void(void)>\<close> and \<open>Continuation\<close> is
  \<open>std::function<void(Retry)>\<close>: procedures on the global state. \<open>None\<close> is a run
  that has no defined final state.
\<close>

type_synonym Retry = "state \<Rightarrow> state option"
type_synonym Continuation = "Retry \<Rightarrow> state \<Rightarrow> state option"

definition Add :: "addr \<Rightarrow> state \<Rightarrow> state" where
  "Add t s = s\<lparr>mTrail := mTrail s @ [t]\<rparr>"

text \<open>
  The store to \<open>t->mVariable.mIsBound\<close>; it is defined only on a node that holds a
  \<open>Variable\<close>.
\<close>

definition set_IsBound :: "addr \<Rightarrow> bool \<Rightarrow> Term list \<Rightarrow> Term list option" where
  "set_IsBound t b h =
     (case lookup h t of
        Some (TVariable v) \<Rightarrow> Some (h[t := TVariable (v\<lparr>mIsBound := b\<rparr>)])
      | _ \<Rightarrow> None)"

definition set_Reference :: "addr \<Rightarrow> addr option \<Rightarrow> Term list \<Rightarrow> Term list option" where
  "set_Reference t r h =
     (case lookup h t of
        Some (TVariable v) \<Rightarrow> Some (h[t := TVariable (v\<lparr>mReference := r\<rparr>)])
      | _ \<Rightarrow> None)"

text \<open>
  \<open>Trail::UnWind\<close>: while the size differs from \<open>Index\<close>, clear \<open>mIsBound\<close> of the
  back element and pop it. \<open>back()\<close> of an empty vector has no defined result.
  \<open>Index\<close> is a natural number here: every caller passes a size the trail had.
\<close>

function UnWind :: "nat \<Rightarrow> state \<Rightarrow> state option" where
  "UnWind Index s =
     (if length (mTrail s) \<noteq> Index
      then (if mTrail s = [] then None
            else (case set_IsBound (last (mTrail s)) False (heap s) of
                    None \<Rightarrow> None
                  | Some h' \<Rightarrow> UnWind Index (s\<lparr>heap := h', mTrail := butlast (mTrail s)\<rparr>)))
      else Some s)"
  by pat_completeness auto
termination
  by (relation "measure (\<lambda>(Index, s). length (mTrail s))") auto

definition Bind :: "addr \<Rightarrow> addr \<Rightarrow> state \<Rightarrow> state option" where
  "Bind t0 t1 s =
     (case set_Reference t0 (Some t1) (heap s) of
        None \<Rightarrow> None
      | Some h1 \<Rightarrow>
          (case set_IsBound t0 True h1 of
             None \<Rightarrow> None
           | Some h2 \<Rightarrow> Some (Add t0 (s\<lparr>heap := h2\<rparr>))))"

section \<open>Unify and UnifyTerms\<close>

text \<open>
  The two procedures call each other and the continuations they are given, and a store
  with a cycle keeps them running. The first argument bounds the depth of the calls:
  at depth zero there is no result.

  In \<open>UnifyTerms\<close> the pointers \<open>t0s\<close> and \<open>t1s\<close> into the argument arrays are the
  lists of the entries from the pointer onwards: \<open>*t0s\<close> is the head, \<open>t0s + 1\<close> the
  tail, and a read past the end of the array or of a null entry has no defined result.
\<close>

fun Unify :: "nat \<Rightarrow> addr \<Rightarrow> addr \<Rightarrow> Continuation \<Rightarrow> Retry \<Rightarrow> state \<Rightarrow> state option"
and UnifyTerms :: "nat \<Rightarrow> addr option list \<Rightarrow> addr option list \<Rightarrow> Continuation \<Rightarrow> Retry
                     \<Rightarrow> int \<Rightarrow> state \<Rightarrow> state option" where
  "Unify 0 t0 t1 K R s = None"
| "Unify (Suc n) t0 t1 K R s =
     (case Deref t0 (heap s) of
        None \<Rightarrow> None
      | Some t0dr \<Rightarrow>
          (case Deref t1 (heap s) of
             None \<Rightarrow> None
           | Some t1dr \<Rightarrow>
               (case lookup (heap s) t0dr of
                  None \<Rightarrow> None
                | Some (TVariable v0) \<Rightarrow> Option.bind (Bind t0dr t1dr s) (K R)
                | Some (TAtom a0) \<Rightarrow>
                    (case lookup (heap s) t1dr of
                       None \<Rightarrow> None
                     | Some (TVariable v1) \<Rightarrow> Option.bind (Bind t1dr t0dr s) (K R)
                     | Some (TAtom a1) \<Rightarrow>
                         (if mName a1 = mName a0 \<and> mArity a1 = mArity a0
                          then UnifyTerms n (mTerms a0) (mTerms a1) K R (mArity a0) s
                          else R s)))))"
| "UnifyTerms 0 t0s t1s K R Arity s = None"
| "UnifyTerms (Suc n) t0s t1s K R Arity s =
     (if Arity = 0 then K R s
      else
        (let index = length (mTrail s);
             r = (\<lambda>s'. Option.bind (UnWind index s') R);
             k = (\<lambda>R' s'. UnifyTerms n (tl t0s) (tl t1s) K r (Arity - 1) s')
         in (case (t0s, t1s) of
               (Some a # _, Some b # _) \<Rightarrow> Unify n a b k r s
             | _ \<Rightarrow> None)))"

section \<open>Term construction\<close>

text \<open>
  \<open>new Term()\<close> gives a zeroed node at a fresh address. \<open>mkAtom\<close> has three
  overloads, for no, one and two arguments; they fill the first entries of \<open>mTerms\<close>
  and leave the others null.
\<close>

definition new_Term :: "Term \<Rightarrow> state \<Rightarrow> addr \<times> state" where
  "new_Term node s = (length (heap s), s\<lparr>heap := heap s @ [node]\<rparr>)"

definition mkVar :: "state \<Rightarrow> addr \<times> state" where
  "mkVar s = new_Term (TVariable \<lparr>mIsBound = False, mReference = None\<rparr>) s"

definition mkAtom0 :: "string \<Rightarrow> state \<Rightarrow> addr \<times> state" where
  "mkAtom0 Name s =
     new_Term (TAtom \<lparr>mName = Name, mArity = 0, mTerms = replicate 10 None\<rparr>) s"

definition mkAtom1 :: "string \<Rightarrow> addr \<Rightarrow> state \<Rightarrow> addr \<times> state" where
  "mkAtom1 Name a0 s =
     new_Term (TAtom \<lparr>mName = Name, mArity = 1,
                      mTerms = (replicate 10 None)[0 := Some a0]\<rparr>) s"

definition mkAtom2 :: "string \<Rightarrow> addr \<Rightarrow> addr \<Rightarrow> state \<Rightarrow> addr \<times> state" where
  "mkAtom2 Name a0 a1 s =
     new_Term (TAtom \<lparr>mName = Name, mArity = 2,
                      mTerms = (replicate 10 None)[0 := Some a0, 1 := Some a1]\<rparr>) s"

text \<open>
  A call \<open>mkAtom(Name, a0, ..)\<close> is resolved by the number of its arguments; with
  more than two there is no overload to call.
\<close>

definition mkAtom :: "string \<Rightarrow> addr list \<Rightarrow> state \<Rightarrow> (addr \<times> state) option" where
  "mkAtom Name args s =
     (case args of
        [] \<Rightarrow> Some (mkAtom0 Name s)
      | [a0] \<Rightarrow> Some (mkAtom1 Name a0 s)
      | [a0, a1] \<Rightarrow> Some (mkAtom2 Name a0 a1 s)
      | _ \<Rightarrow> None)"

section \<open>The member predicate\<close>

fun Member0 :: "nat \<Rightarrow> addr \<Rightarrow> addr \<Rightarrow> Continuation \<Rightarrow> Retry \<Rightarrow> state \<Rightarrow> state option"
and Member1 :: "nat \<Rightarrow> addr \<Rightarrow> addr \<Rightarrow> Continuation \<Rightarrow> Retry \<Rightarrow> state \<Rightarrow> state option" where
  "Member0 0 Item List K R s = None"
| "Member0 (Suc n) Item List K R s =
     (let A0 = Item;
          (v, s1) = mkVar s;
          (A1, s2) = mkAtom2 ''.'' Item v s1;
          index = length (mTrail s2);
          r = (\<lambda>s'. Option.bind (UnWind index s') (Member1 n Item List K R));
          k = (\<lambda>R s'. K R s')
      in Unify n List A1 k r s2)"
| "Member1 0 Item List K R s = None"
| "Member1 (Suc n) Item List K R s =
     (let A0 = Item;
          (H, s1) = mkVar s;
          (T, s2) = mkVar s1;
          (A1, s3) = mkAtom2 ''.'' H T s2;
          index = length (mTrail s3);
          r = (\<lambda>s'. Option.bind (UnWind index s') R);
          k = (\<lambda>R s'. Member0 n A0 T K R s')
      in Unify n List A1 k r s3)"

section \<open>Print and main\<close>

definition printf :: "string \<Rightarrow> state \<Rightarrow> state" where
  "printf str s = s\<lparr>out := out s @ str\<rparr>"

text \<open>
  \<open>Print\<close> calls itself from its \<open>for\<close> loop; \<open>PrintArgs\<close> is that loop from index
  \<open>i\<close> on. Reading \<open>mTerms[i]\<close> outside the array, or a null entry, has no defined
  result.
\<close>

fun Print :: "nat \<Rightarrow> addr \<Rightarrow> state \<Rightarrow> state option"
and PrintArgs :: "nat \<Rightarrow> Atom \<Rightarrow> int \<Rightarrow> state \<Rightarrow> state option" where
  "Print 0 Root s = None"
| "Print (Suc n) Root s =
     (case Deref Root (heap s) of
        None \<Rightarrow> None
      | Some t \<Rightarrow>
          (case lookup (heap s) t of
             None \<Rightarrow> None
           | Some (TAtom a) \<Rightarrow>
               Option.bind (PrintArgs n a 0 (printf (mName a @ ''('') s))
                 (\<lambda>s'. Some (printf '')'' s'))
           | Some (TVariable v) \<Rightarrow> Some (printf ''X?'' s)))"
| "PrintArgs 0 a i s = None"
| "PrintArgs (Suc n) a i s =
     (if i < mArity a
      then (if 0 \<le> i \<and> nat i < length (mTerms a)
            then (case mTerms a ! nat i of
                    None \<Rightarrow> None
                  | Some p \<Rightarrow> Option.bind (Print n p s) (PrintArgs n a (i + 1)))
            else None)
      else Some s)"

text \<open>
  The call that \<open>main\<close> makes, for any outer retry: \<open>Item\<close> is a member of \<open>list\<close>
  and of \<open>list2\<close>; each solution is printed and the retry taken at once.
\<close>

definition main_query :: "nat \<Rightarrow> addr \<Rightarrow> addr \<Rightarrow> addr \<Rightarrow> Retry \<Rightarrow> state \<Rightarrow> state option" where
  "main_query n item list list2 R0 s =
     Member0 n item list
       (\<lambda>R. Member0 n item list2 (\<lambda>R s'. Option.bind (Print n item s') R) R)
       R0 s"

text \<open>
  The lists of \<open>main\<close>, their nodes created from left to right (C++ leaves the order
  of the nested calls open; only the addresses depend on it).
\<close>

definition main_terms :: "state \<Rightarrow> (addr \<times> addr \<times> addr) \<times> state" where
  "main_terms s0 =
     (let (cat, s1) = mkAtom0 ''cat'' s0;
          (dog, s2) = mkAtom0 ''dog'' s1;
          (frog, s3) = mkAtom0 ''frog'' s2;
          (nil, s4) = mkAtom0 ''[]'' s3;
          (l3, s5) = mkAtom2 ''.'' frog nil s4;
          (l2, s6) = mkAtom2 ''.'' dog l3 s5;
          (list, s7) = mkAtom2 ''.'' cat l2 s6;
          (cat', s8) = mkAtom0 ''cat'' s7;
          (monkey, s9) = mkAtom0 ''monkey'' s8;
          (frog', s10) = mkAtom0 ''frog'' s9;
          (nil', s11) = mkAtom0 ''[]'' s10;
          (m3, s12) = mkAtom2 ''.'' frog' nil' s11;
          (m2, s13) = mkAtom2 ''.'' monkey m3 s12;
          (list2, s14) = mkAtom2 ''.'' cat' m2 s13;
          (item, s15) = mkVar s14
      in ((item, list, list2), s15))"

definition main :: "nat \<Rightarrow> state \<Rightarrow> state option" where
  "main n s0 =
     (let ((item, list, list2), s) = main_terms s0
      in main_query n item list list2 (\<lambda>s'. Some s') s)"

definition initial :: state where
  "initial = \<lparr>heap = [], mTrail = [], out = []\<rparr>"

section \<open>Vocabulary of the properties\<close>

subsection \<open>Nodes and reference chains\<close>

definition bound_node :: "Term \<Rightarrow> bool" where
  "bound_node x = (case x of TVariable v \<Rightarrow> mIsBound v | TAtom a \<Rightarrow> False)"

definition variable_node :: "Term \<Rightarrow> bool" where
  "variable_node x = (case x of TVariable v \<Rightarrow> True | TAtom a \<Rightarrow> False)"

definition unbound_node :: "Term \<Rightarrow> bool" where
  "unbound_node x = (case x of TVariable v \<Rightarrow> \<not> mIsBound v | TAtom a \<Rightarrow> False)"

definition is_Variable :: "Term list \<Rightarrow> addr \<Rightarrow> bool" where
  "is_Variable h a = (case lookup h a of None \<Rightarrow> False | Some x \<Rightarrow> variable_node x)"

text \<open>
  One link of a reference chain: from a bound variable to the node its \<open>mReference\<close>
  points to. \<open>refs_valid\<close>: the reference of every bound variable is an allocated
  node.
\<close>

definition ref_step :: "Term list \<Rightarrow> (addr \<times> addr) set" where
  "ref_step h =
     {(a, b). \<exists>v. lookup h a = Some (TVariable v) \<and> mIsBound v \<and> mReference v = Some b}"

definition refs_valid :: "Term list \<Rightarrow> bool" where
  "refs_valid h =
     list_all (\<lambda>x. case x of
                 TVariable v \<Rightarrow>
                   mIsBound v \<longrightarrow> (case mReference v of None \<Rightarrow> False | Some b \<Rightarrow> b < length h)
               | TAtom a \<Rightarrow> True) h"

subsection \<open>The trail and what unwinding leaves\<close>

text \<open>
  \<open>clear_node\<close> is a node after \<open>mIsBound = false\<close> was stored into it, and
  \<open>unbound_again v\<close> the store after that assignment to node \<open>v\<close>. The trail is in
  order (\<open>trail_ok\<close>) when each of its entries is a variable. \<open>restored h h'\<close>: the
  two stores agree, except that a variable unbound in both may hold another reference.
\<close>

definition clear_node :: "Term \<Rightarrow> Term" where
  "clear_node x = (case x of TVariable v \<Rightarrow> TVariable (v\<lparr>mIsBound := False\<rparr>) | TAtom a \<Rightarrow> TAtom a)"

definition unbound_again :: "addr \<Rightarrow> Term list \<Rightarrow> Term list" where
  "unbound_again v h = (if v < length h then h[v := clear_node (h ! v)] else h)"

definition trail_ok :: "state \<Rightarrow> bool" where
  "trail_ok s = list_all (is_Variable (heap s)) (mTrail s)"

definition restored :: "Term list \<Rightarrow> Term list \<Rightarrow> bool" where
  "restored h h' = list_all2 (\<lambda>x y. y = x \<or> (unbound_node x \<and> unbound_node y)) h h'"

text \<open>
  \<open>UnWind_log\<close> is the loop of \<open>UnWind\<close> with a log: beside the state it returns
  the variables it has stored \<open>mIsBound = false\<close> into, in the order of the stores.
\<close>

function UnWind_log :: "nat \<Rightarrow> state \<Rightarrow> (addr list \<times> state) option" where
  "UnWind_log Index s =
     (if length (mTrail s) \<noteq> Index
      then (if mTrail s = [] then None
            else (case set_IsBound (last (mTrail s)) False (heap s) of
                    None \<Rightarrow> None
                  | Some h' \<Rightarrow>
                      (case UnWind_log Index (s\<lparr>heap := h', mTrail := butlast (mTrail s)\<rparr>) of
                         None \<Rightarrow> None
                       | Some (vs, s') \<Rightarrow> Some (last (mTrail s) # vs, s'))))
      else Some ([], s))"
  by pat_completeness auto
termination
  by (relation "measure (\<lambda>(Index, s). length (mTrail s))") auto

subsection \<open>What a unification does with its continuations\<close>

text \<open>
  \<open>unwinds cs R\<close> is the retry that unwinds to the checkpoints \<open>cs\<close>, first to
  last, and then calls \<open>R\<close>: the shape of every retry \<open>UnifyTerms\<close> builds.

  \<open>succeeds_rel s s' cs\<close> relates the state \<open>s\<close> a unification starts in to the
  state \<open>s'\<close> its continuation receives: the trail has grown by the variables bound,
  each unbound before and bound now, no other node has changed, and the checkpoints
  \<open>cs\<close> of the retry handed on lie between the two trail sizes. \<open>fails_rel s s'\<close>
  relates \<open>s\<close> to the state \<open>s'\<close> the retry receives: the trail is the one of
  \<open>s\<close> and the store is restored. \<open>outcome f s\<close>: the call \<open>f\<close>, made in \<open>s\<close>
  with any continuation and retry, has no result, or calls the continuation, or calls
  the retry, in states so related to \<open>s\<close>.
\<close>

definition unwinds :: "nat list \<Rightarrow> Retry \<Rightarrow> Retry" where
  "unwinds cs R = foldr (\<lambda>c r s. Option.bind (UnWind c s) r) cs R"

definition succeeds_rel :: "state \<Rightarrow> state \<Rightarrow> nat list \<Rightarrow> bool" where
  "succeeds_rel s s' cs \<longleftrightarrow>
     trail_ok s' \<and> out s' = out s \<and> length (heap s') = length (heap s) \<and>
     (\<exists>new. mTrail s' = mTrail s @ new \<and>
        (\<forall>a\<in>set new. a < length (heap s) \<and> unbound_node (heap s ! a) \<and>
                       bound_node (heap s' ! a)) \<and>
        (\<forall>a<length (heap s). a \<notin> set new \<longrightarrow> heap s' ! a = heap s ! a)) \<and>
     (\<forall>c\<in>set cs. length (mTrail s) \<le> c \<and> c \<le> length (mTrail s'))"

definition fails_rel :: "state \<Rightarrow> state \<Rightarrow> bool" where
  "fails_rel s s' \<longleftrightarrow>
     trail_ok s' \<and> out s' = out s \<and> mTrail s' = mTrail s \<and> restored (heap s) (heap s')"

definition outcome :: "(Continuation \<Rightarrow> Retry \<Rightarrow> state option) \<Rightarrow> state \<Rightarrow> bool" where
  "outcome f s \<longleftrightarrow>
     (\<forall>K R. f K R = None) \<or>
     (\<exists>s' cs. succeeds_rel s s' cs \<and> (\<forall>K R. f K R = K (unwinds cs R) s')) \<or>
     (\<exists>s'. fails_rel s s' \<and> (\<forall>K R. f K R = R s'))"

text \<open>
  \<open>Unify_calls_K a b s s'\<close>: with every bound on the call depth from some bound on,
  and with every continuation and retry, \<open>Unify\<close> of the nodes \<open>a\<close> and \<open>b\<close> in
  the state \<open>s\<close> is the call of its continuation in the state \<open>s'\<close>.
  \<open>Unify_calls_R a b s s'\<close>: it is the call of its retry in \<open>s'\<close>.
  \<open>pairs_unify ps s s'\<close>: the pairs \<open>ps\<close> unify one after the other, each starting
  in the state the one before has reached, from \<open>s\<close> to \<open>s'\<close>.
\<close>

definition Unify_calls_K :: "addr \<Rightarrow> addr \<Rightarrow> state \<Rightarrow> state \<Rightarrow> bool" where
  "Unify_calls_K a b s s' \<longleftrightarrow> (\<exists>N. \<forall>n\<ge>N. \<forall>K R. \<exists>R'. Unify n a b K R s = K R' s')"

definition Unify_calls_R :: "addr \<Rightarrow> addr \<Rightarrow> state \<Rightarrow> state \<Rightarrow> bool" where
  "Unify_calls_R a b s s' \<longleftrightarrow> (\<exists>N. \<forall>n\<ge>N. \<forall>K R. Unify n a b K R s = R s')"

fun pairs_unify :: "(addr \<times> addr) list \<Rightarrow> state \<Rightarrow> state \<Rightarrow> bool" where
  "pairs_unify [] s s' = (s' = s)"
| "pairs_unify ((a, b) # ps) s s' = (\<exists>s1. Unify_calls_K a b s s1 \<and> pairs_unify ps s1 s')"

text \<open>
  \<open>lifted R0 K K'\<close>: the continuation \<open>K'\<close>, given a retry that ends in \<open>R0\<close>,
  does what \<open>K\<close> does with the retry and \<open>R0\<close> after it.
\<close>

definition lifted :: "Retry \<Rightarrow> Continuation \<Rightarrow> Continuation \<Rightarrow> bool" where
  "lifted R0 K K' \<longleftrightarrow> (\<forall>r s. K' (\<lambda>s'. Option.bind (r s') R0) s = Option.bind (K r s) R0)"

text \<open>
  A retry, or a continuation, that returns whatever another one returns. They compare
  the same call made with two bounds on the call depth.
\<close>

definition le_Retry :: "Retry \<Rightarrow> Retry \<Rightarrow> bool" where
  "le_Retry R R' \<longleftrightarrow> (\<forall>s x. R s = Some x \<longrightarrow> R' s = Some x)"

definition le_Continuation :: "Continuation \<Rightarrow> Continuation \<Rightarrow> bool" where
  "le_Continuation K K' \<longleftrightarrow>
     (\<forall>R R' s x. le_Retry R R' \<longrightarrow> K R s = Some x \<longrightarrow> K' R' s = Some x)"

subsection \<open>Ground terms\<close>

text \<open>
  A variable-free term as a tree, and the nodes that hold it: \<open>represents h a t\<close>
  when node \<open>a\<close> is an atom with the functor of \<open>t\<close>, \<open>mArity\<close> the number of its
  arguments, and the first \<open>mArity\<close> entries of \<open>mTerms\<close> holding the arguments.
  \<open>depth t\<close> bounds the depth of the calls that unify \<open>t\<close> with another ground term.
\<close>

datatype gterm = Fn string "gterm list"

fun represents :: "Term list \<Rightarrow> addr \<Rightarrow> gterm \<Rightarrow> bool" where
  "represents h a (Fn f ts) =
     (case lookup h a of
        Some (TAtom at) \<Rightarrow>
          mName at = f \<and> mArity at = int (length ts) \<and> length ts \<le> length (mTerms at) \<and>
          list_all2 (\<lambda>p t. case p of None \<Rightarrow> False | Some a' \<Rightarrow> represents h a' t)
            (take (length ts) (mTerms at)) ts
      | _ \<Rightarrow> False)"

fun depth :: "gterm \<Rightarrow> nat" where
  "depth (Fn f ts) = Suc (Suc (sum_list (map depth ts) + length ts))"

fun arity :: "gterm \<Rightarrow> nat" where
  "arity (Fn f ts) = length ts"

subsection \<open>Example states\<close>

text \<open>
  \<open>example\<close>: the nodes \<open>X\<close>, \<open>Y\<close>, \<open>f(X)\<close>, \<open>f(X, Y)\<close> and \<open>g(X)\<close>, at the
  addresses 0 to 4. \<open>ground_example\<close>:
  \<open>a\<close>, \<open>b\<close>, \<open>f(a, b)\<close>, and again \<open>a\<close>, \<open>b\<close>, \<open>f(a, b)\<close>, then \<open>f(a, a)\<close>.
  \<open>bound_example\<close>: a variable bound to the atom \<open>a\<close>, as \<open>Bind\<close> leaves it.
  \<open>single_variable\<close>: one fresh variable \<open>X\<close>. \<open>repeated_variable\<close>: \<open>X\<close> and
  \<open>f(X, X)\<close>. \<open>chain_example\<close>: two bound variables leading to an unbound one.
  \<open>nested_example\<close>: \<open>X\<close>, \<open>Y\<close>, \<open>a\<close>, \<open>b\<close>, \<open>c\<close>, \<open>d\<close>, \<open>g(X, Y)\<close>,
  \<open>g(b, c)\<close>, \<open>f(g(X, Y), a)\<close> and \<open>f(g(b, c), d)\<close>, at the addresses 0 to 9;
  \<open>nested_bound\<close>: the same with \<open>X\<close> bound to \<open>b\<close> and \<open>Y\<close> to \<open>c\<close>, in
  this order; \<open>nested_unwound\<close>: the same with \<open>X\<close> and \<open>Y\<close> unbound again.
  \<open>two_variables\<close>: two fresh variables \<open>X\<close> and \<open>Y\<close>; \<open>aliased_example\<close>: the
  two with \<open>X\<close> bound to \<open>Y\<close>.
\<close>

definition example :: state where
  "example =
     snd (mkAtom1 ''g'' 0 (snd (mkAtom2 ''f'' 0 1 (snd (mkAtom1 ''f'' 0
       (snd (mkVar (snd (mkVar initial)))))))))"

definition ground_example :: state where
  "ground_example =
     snd (mkAtom2 ''f'' 3 3 (snd (mkAtom2 ''f'' 3 4 (snd (mkAtom0 ''b'' (snd (mkAtom0 ''a''
       (snd (mkAtom2 ''f'' 0 1 (snd (mkAtom0 ''b'' (snd (mkAtom0 ''a'' initial)))))))))))))"

definition bound_example :: state where
  "bound_example =
     \<lparr>heap = [TVariable \<lparr>mIsBound = True, mReference = Some 1\<rparr>,
              TAtom \<lparr>mName = ''a'', mArity = 0, mTerms = replicate 10 None\<rparr>],
      mTrail = [0], out = []\<rparr>"

definition single_variable :: state where
  "single_variable = snd (mkVar initial)"

definition repeated_variable :: state where
  "repeated_variable = snd (mkAtom2 ''f'' 0 0 (snd (mkVar initial)))"

definition chain_example :: "Term list" where
  "chain_example =
     [TVariable \<lparr>mIsBound = True, mReference = Some 1\<rparr>,
      TVariable \<lparr>mIsBound = True, mReference = Some 2\<rparr>,
      TVariable \<lparr>mIsBound = False, mReference = None\<rparr>]"

definition nested_example :: state where
  "nested_example =
     snd (mkAtom2 ''f'' 7 5 (snd (mkAtom2 ''f'' 6 2 (snd (mkAtom2 ''g'' 3 4
       (snd (mkAtom2 ''g'' 0 1 (snd (mkAtom0 ''d'' (snd (mkAtom0 ''c'' (snd (mkAtom0 ''b''
         (snd (mkAtom0 ''a'' (snd (mkVar (snd (mkVar initial)))))))))))))))))))"

definition nested_bound :: state where
  "nested_bound =
     nested_example\<lparr>heap := (heap nested_example)
                 [0 := TVariable \<lparr>mIsBound = True, mReference = Some 3\<rparr>,
                  1 := TVariable \<lparr>mIsBound = True, mReference = Some 4\<rparr>],
              mTrail := [0, 1]\<rparr>"

definition nested_unwound :: state where
  "nested_unwound =
     nested_example\<lparr>heap := (heap nested_example)
                 [0 := TVariable \<lparr>mIsBound = False, mReference = Some 3\<rparr>,
                  1 := TVariable \<lparr>mIsBound = False, mReference = Some 4\<rparr>]\<rparr>"



section \<open>Lemmas\<close>

subsection \<open>The store and Bind\<close>

declare UnWind.simps [simp del]

lemma Bind_Variable:
  "lookup (heap s) t0 = Some (TVariable v) \<Longrightarrow>
   Bind t0 t1 s =
     Some (s\<lparr>heap := (heap s)[t0 := TVariable \<lparr>mIsBound = True, mReference = Some t1\<rparr>],
              mTrail := mTrail s @ [t0]\<rparr>)"
  by (cases v) (auto simp: Bind_def set_Reference_def set_IsBound_def Add_def lookup_def split: if_splits)

subsection \<open>Deref\<close>

lemma Deref_Some:
  assumes "Deref t h = Some r"
  shows "(t, r) \<in> (ref_step h)\<^sup>* \<and> r < length h \<and> \<not> bound_node (h ! r)"
proof (rule Deref.raw_induct
    [where P = "\<lambda>t h r. (t, r) \<in> (ref_step h)\<^sup>* \<and> r < length h \<and> \<not> bound_node (h ! r)",
     OF _ assms])
  fix D t h r
  assume IH: "\<And>t h r. D t h = Some r \<Longrightarrow>
      (t, r) \<in> (ref_step h)\<^sup>* \<and> r < length h \<and> \<not> bound_node (h ! r)"
    and eq: "(case lookup h t of None \<Rightarrow> None
      | Some (TVariable v) \<Rightarrow>
          if mIsBound v
          then case mReference v of None \<Rightarrow> None | Some r \<Rightarrow> D r h
          else Some t
      | Some (TAtom a) \<Rightarrow> Some t) = Some r"
  show "(t, r) \<in> (ref_step h)\<^sup>* \<and> r < length h \<and> \<not> bound_node (h ! r)"
  proof (cases "lookup h t")
    case None
    with eq show ?thesis by simp
  next
    case (Some x)
    then have t: "t < length h" "h ! t = x"
      by (auto simp: lookup_def split: if_splits)
    show ?thesis
    proof (cases x)
      case (TAtom a)
      with Some eq t show ?thesis by (auto simp: bound_node_def)
    next
      case (TVariable v)
      show ?thesis
      proof (cases "mIsBound v")
        case False
        with Some TVariable eq t show ?thesis by (auto simp: bound_node_def)
      next
        case True
        with Some TVariable eq obtain b where b: "mReference v = Some b" "D b h = Some r"
          by (auto split: option.splits)
        have "(t, b) \<in> ref_step h"
          using Some TVariable True b(1) by (auto simp: ref_step_def)
        moreover from IH [OF b(2)]
        have r: "(b, r) \<in> (ref_step h)\<^sup>*" "r < length h" "\<not> bound_node (h ! r)"
          by auto
        ultimately have "(t, r) \<in> (ref_step h)\<^sup>*"
          by (auto intro: converse_rtrancl_into_rtrancl)
        with r show ?thesis by simp
      qed
    qed
  qed
qed

lemma Deref_Atom: "lookup h a = Some (TAtom at) \<Longrightarrow> Deref a h = Some a"
  by (subst Deref.simps) simp

lemma Deref_not_bound_var:
  "lookup h t = Some x \<Longrightarrow> \<not> bound_node x \<Longrightarrow> Deref t h = Some t"
  by (subst Deref.simps) (auto simp: bound_node_def split: Term.splits)

lemma Deref_self_reference:
  "Deref 0 (TVariable \<lparr>mIsBound = True, mReference = Some 0\<rparr> # h) = None"
proof (rule ccontr)
  let ?h = "TVariable \<lparr>mIsBound = True, mReference = Some 0\<rparr> # h"
  assume "Deref 0 ?h \<noteq> None"
  then obtain r where r: "Deref 0 ?h = Some r"
    by auto
  have "\<not> (t = 0 \<and> h' = ?h)" if "Deref t h' = Some y" for t h' y
  proof (rule Deref.raw_induct [where P = "\<lambda>t h' y. \<not> (t = 0 \<and> h' = ?h)", OF _ that])
    fix D t h' y
    assume IH: "\<And>t h' y. D t h' = Some y \<Longrightarrow> \<not> (t = 0 \<and> h' = ?h)"
      and eq: "(case lookup h' t of None \<Rightarrow> None
        | Some (TVariable v) \<Rightarrow>
            if mIsBound v
            then case mReference v of None \<Rightarrow> None | Some r \<Rightarrow> D r h'
            else Some t
        | Some (TAtom a) \<Rightarrow> Some t) = Some y"
    show "\<not> (t = 0 \<and> h' = ?h)"
    proof
      assume "t = 0 \<and> h' = ?h"
      with eq have "D 0 ?h = Some y" by (simp add: lookup_def)
      from IH [OF this] show False by simp
    qed
  qed
  from this [OF r] show False by simp
qed

lemma ref_step_target:
  assumes "refs_valid h" and "(a, b) \<in> ref_step h"
  shows "b < length h"
proof -
  from assms(2) obtain v where v: "a < length h" "h ! a = TVariable v" "mIsBound v"
      "mReference v = Some b"
    by (auto simp: ref_step_def lookup_def split: if_splits)
  from assms(1) v(1) have "case h ! a of
       TVariable v \<Rightarrow> mIsBound v \<longrightarrow> (case mReference v of None \<Rightarrow> False | Some b \<Rightarrow> b < length h)
     | TAtom a \<Rightarrow> True"
    unfolding refs_valid_def list_all_length by blast
  with v show ?thesis by simp
qed

lemma trancl_ref_step_target:
  assumes "refs_valid h" and "(a, b) \<in> (ref_step h)\<^sup>+"
  shows "b < length h"
  using assms(2) by (cases rule: tranclE) (auto intro: ref_step_target [OF assms(1)])

lemma Deref_acyclic:
  assumes valid: "refs_valid h"
  shows "t < length h \<Longrightarrow>
     (\<forall>x. (t, x) \<in> (ref_step h)\<^sup>* \<longrightarrow> (x, x) \<notin> (ref_step h)\<^sup>+) \<Longrightarrow>
     \<exists>r. Deref t h = Some r \<and> (t, r) \<in> (ref_step h)\<^sup>* \<and> r < length h \<and> \<not> bound_node (h ! r)"
proof (induction "card ((ref_step h)\<^sup>+ `` {t})" arbitrary: t rule: less_induct)
  case less
  have fin: "finite ((ref_step h)\<^sup>+ `` {t})"
  proof (rule finite_subset)
    show "(ref_step h)\<^sup>+ `` {t} \<subseteq> {..<length h}"
      using trancl_ref_step_target [OF valid] by auto
  qed simp
  show ?case
  proof (cases "bound_node (h ! t)")
    case False
    then have "Deref t h = Some t"
      using less.prems(1)
      by (subst Deref.simps) (auto simp: lookup_def bound_node_def split: Term.splits)
    with False less.prems(1) show ?thesis by auto
  next
    case True
    then obtain v where v: "h ! t = TVariable v" "mIsBound v"
      by (auto simp: bound_node_def split: Term.splits)
    have "case h ! t of
       TVariable v \<Rightarrow> mIsBound v \<longrightarrow> (case mReference v of None \<Rightarrow> False | Some b \<Rightarrow> b < length h)
     | TAtom a \<Rightarrow> True"
      using valid less.prems(1) unfolding refs_valid_def list_all_length by blast
    with v obtain b where b: "mReference v = Some b" "b < length h"
      by (auto split: option.splits)
    have step: "(t, b) \<in> ref_step h"
      using v b less.prems(1) by (auto simp: ref_step_def lookup_def)
    have sub: "(ref_step h)\<^sup>+ `` {b} \<subseteq> (ref_step h)\<^sup>+ `` {t}"
      using step by (auto intro: trancl_into_trancl2)
    have "b \<in> (ref_step h)\<^sup>+ `` {t}" using step by auto
    moreover have "b \<notin> (ref_step h)\<^sup>+ `` {b}"
      using less.prems(2) step by auto
    ultimately have "(ref_step h)\<^sup>+ `` {b} \<subset> (ref_step h)\<^sup>+ `` {t}"
      using sub by blast
    then have card: "card ((ref_step h)\<^sup>+ `` {b}) < card ((ref_step h)\<^sup>+ `` {t})"
      using fin by (rule psubset_card_mono [rotated])
    have acyc: "\<forall>x. (b, x) \<in> (ref_step h)\<^sup>* \<longrightarrow> (x, x) \<notin> (ref_step h)\<^sup>+"
      using less.prems(2) step by (meson converse_rtrancl_into_rtrancl)
    from less.hyps [OF card b(2) acyc] obtain r where
      r: "Deref b h = Some r" "(b, r) \<in> (ref_step h)\<^sup>*" "r < length h" "\<not> bound_node (h ! r)"
      by blast
    have "Deref t h = Deref b h"
      using v b less.prems(1) by (subst Deref.simps) (simp add: lookup_def)
    moreover have "(t, r) \<in> (ref_step h)\<^sup>*"
      using step r(2) by (rule converse_rtrancl_into_rtrancl)
    ultimately show ?thesis using r by auto
  qed
qed

lemma increasing_irrefl:
  assumes "\<And>a b. (a, b) \<in> r \<Longrightarrow> a < (b::nat)"
  shows "(x, x) \<notin> r\<^sup>+"
proof
  assume "(x, x) \<in> r\<^sup>+"
  moreover have "(a, b) \<in> r\<^sup>+ \<Longrightarrow> a < b" for a b
    by (induction rule: trancl_induct) (auto dest: assms)
  ultimately show False by blast
qed

subsection \<open>One step of Unify and of UnifyTerms\<close>

lemma Unify_var0:
  assumes "Deref t0 (heap s) = Some t0dr" and "Deref t1 (heap s) = Some t1dr"
    and "lookup (heap s) t0dr = Some (TVariable v0)"
  shows "Unify (Suc n) t0 t1 K R s =
     K R (s\<lparr>heap := (heap s)[t0dr := TVariable \<lparr>mIsBound = True, mReference = Some t1dr\<rparr>],
             mTrail := mTrail s @ [t0dr]\<rparr>)"
  using assms by (simp add: Bind_Variable)

lemma Unify_var1:
  assumes "Deref t0 (heap s) = Some t0dr" and "Deref t1 (heap s) = Some t1dr"
    and "lookup (heap s) t0dr = Some (TAtom a0)"
    and "lookup (heap s) t1dr = Some (TVariable v1)"
  shows "Unify (Suc n) t0 t1 K R s =
     K R (s\<lparr>heap := (heap s)[t1dr := TVariable \<lparr>mIsBound = True, mReference = Some t0dr\<rparr>],
             mTrail := mTrail s @ [t1dr]\<rparr>)"
  using assms by (simp add: Bind_Variable)

lemma Unify_atoms:
  assumes "Deref t0 (heap s) = Some t0dr" and "Deref t1 (heap s) = Some t1dr"
    and "lookup (heap s) t0dr = Some (TAtom a0)"
    and "lookup (heap s) t1dr = Some (TAtom a1)"
  shows "Unify (Suc n) t0 t1 K R s =
     (if mName a1 = mName a0 \<and> mArity a1 = mArity a0
      then UnifyTerms n (mTerms a0) (mTerms a1) K R (mArity a0) s
      else R s)"
  using assms by simp

lemma Unify_no_Deref:
  "Deref t0 (heap s) = None \<or> Deref t1 (heap s) = None \<Longrightarrow> Unify (Suc n) t0 t1 K R s = None"
  by (auto split: option.splits)

lemma UnifyTerms_zero: "UnifyTerms (Suc n) t0s t1s K R 0 s = K R s"
  by simp

lemma UnifyTerms_pair:
  "Arity \<noteq> 0 \<Longrightarrow>
   UnifyTerms (Suc n) (Some a # t0s) (Some b # t1s) K R Arity s =
     Unify n a b
       (\<lambda>R' s'. UnifyTerms n t0s t1s K
                 (\<lambda>s'. Option.bind (UnWind (length (mTrail s)) s') R) (Arity - 1) s')
       (\<lambda>s'. Option.bind (UnWind (length (mTrail s)) s') R) s"
  by (simp add: Let_def)

lemma UnifyTerms_no_pair:
  "Arity \<noteq> 0 \<Longrightarrow> \<not> (\<exists>a t0s' b t1s'. t0s = Some a # t0s' \<and> t1s = Some b # t1s') \<Longrightarrow>
   UnifyTerms (Suc n) t0s t1s K R Arity s = None"
  by (auto simp: Let_def split: list.splits option.splits)

declare Unify.simps [simp del] UnifyTerms.simps [simp del]

subsection \<open>UnWind\<close>

lemma length_unbound_again [simp]: "length (unbound_again v h) = length h"
  by (simp add: unbound_again_def)

lemma length_fold_unbound_again [simp]: "length (fold unbound_again vs h) = length h"
  by (induction vs arbitrary: h) simp_all

lemma clear_node_idem [simp]: "clear_node (clear_node x) = clear_node x"
  by (cases x) (simp_all add: clear_node_def)

lemma variable_node_clear [simp]: "variable_node (clear_node x) = variable_node x"
  by (cases x) (simp_all add: clear_node_def variable_node_def)

lemma unbound_node_clear: "variable_node x \<Longrightarrow> unbound_node (clear_node x)"
  by (cases x) (simp_all add: clear_node_def variable_node_def unbound_node_def)

lemma nth_unbound_again:
  "a < length h \<Longrightarrow> unbound_again v h ! a = (if a = v then clear_node (h ! a) else h ! a)"
  by (simp add: unbound_again_def)

lemma nth_fold_unbound_again:
  "a < length h \<Longrightarrow>
   fold unbound_again vs h ! a = (if a \<in> set vs then clear_node (h ! a) else h ! a)"
proof (induction vs arbitrary: h)
  case Nil
  then show ?case by simp
next
  case (Cons v vs)
  then show ?case by (simp add: nth_unbound_again)
qed

lemma is_Variable_nth: "is_Variable h a \<longleftrightarrow> a < length h \<and> variable_node (h ! a)"
  by (simp add: is_Variable_def lookup_def)

lemma is_Variable_unbound_again [simp]:
  "is_Variable (unbound_again v h) a = is_Variable h a"
  by (simp add: is_Variable_def lookup_def nth_unbound_again)

lemma set_IsBound_False:
  "is_Variable h v \<Longrightarrow> set_IsBound v False h = Some (unbound_again v h)"
  by (auto simp: is_Variable_def set_IsBound_def lookup_def unbound_again_def clear_node_def
        variable_node_def split: if_splits Term.splits)

lemma UnWind_here: "length (mTrail s) = Index \<Longrightarrow> UnWind Index s = Some s"
  by (subst UnWind.simps) simp

lemma UnWind_append:
  "mTrail s = pre @ post \<Longrightarrow> list_all (is_Variable (heap s)) post \<Longrightarrow>
   UnWind (length pre) s =
     Some (s\<lparr>heap := fold unbound_again (rev post) (heap s), mTrail := pre\<rparr>)"
proof (induction post arbitrary: s rule: rev_induct)
  case Nil
  then show ?case by (simp add: UnWind_here)
next
  case (snoc v post)
  let ?s1 = "s\<lparr>heap := unbound_again v (heap s), mTrail := pre @ post\<rparr>"
  have v: "is_Variable (heap s) v" using snoc.prems(2) by simp
  have "UnWind (length pre) s = UnWind (length pre) ?s1"
    using snoc.prems(1) v
    by (subst UnWind.simps) (simp add: set_IsBound_False butlast_append)
  also have "\<dots> = Some (?s1\<lparr>heap := fold unbound_again (rev post) (heap ?s1), mTrail := pre\<rparr>)"
    using snoc.prems(2) by (intro snoc.IH) simp_all
  finally show ?case by simp
qed

declare UnWind_log.simps [simp del]

lemma UnWind_log_state: "map_option snd (UnWind_log Index s) = UnWind Index s"
proof (induction Index s rule: UnWind.induct)
  case (1 Index s)
  show ?case
  proof (cases "length (mTrail s) = Index")
    case True
    then show ?thesis by (simp add: UnWind_log.simps [of Index s] UnWind_here)
  next
    case False
    show ?thesis
    proof (cases "mTrail s = []")
      case True
      with False show ?thesis
        by (simp add: UnWind_log.simps [of Index s] UnWind.simps [of Index s])
    next
      case ne: False
      show ?thesis
      proof (cases "set_IsBound (last (mTrail s)) False (heap s)")
        case None
        with False ne show ?thesis
          by (simp add: UnWind_log.simps [of Index s] UnWind.simps [of Index s])
      next
        case (Some h')
        from "1.IH" [OF False ne Some] False ne Some show ?thesis
          by (auto simp: UnWind_log.simps [of Index s] UnWind.simps [of Index s]
              split: option.splits prod.splits)
      qed
    qed
  qed
qed

lemma UnWind_log_append:
  "mTrail s = pre @ post \<Longrightarrow> list_all (is_Variable (heap s)) post \<Longrightarrow>
   UnWind_log (length pre) s =
     Some (rev post, s\<lparr>heap := fold unbound_again (rev post) (heap s), mTrail := pre\<rparr>)"
proof (induction post arbitrary: s rule: rev_induct)
  case Nil
  then show ?case by (simp add: UnWind_log.simps [of "length pre" s])
next
  case (snoc v post)
  let ?s1 = "s\<lparr>heap := unbound_again v (heap s), mTrail := pre @ post\<rparr>"
  have v: "is_Variable (heap s) v" using snoc.prems(2) by simp
  have "UnWind_log (length pre) ?s1 =
      Some (rev post, ?s1\<lparr>heap := fold unbound_again (rev post) (heap ?s1), mTrail := pre\<rparr>)"
    using snoc.prems(2) by (intro snoc.IH) simp_all
  then show ?case
    using snoc.prems(1) v
    by (simp add: UnWind_log.simps [of "length pre" s] set_IsBound_False butlast_append)
qed

subsection \<open>Continuation or retry: the outcome of a unification\<close>

lemma unwinds_Nil [simp]: "unwinds [] R = R"
  by (simp add: unwinds_def)

lemma unwinds_snoc: "unwinds (cs @ [i]) R = unwinds cs (\<lambda>s'. Option.bind (UnWind i s') R)"
  by (simp add: unwinds_def)

lemma restored_refl [simp]: "restored h h"
  by (simp add: restored_def list_all2_same)

lemma restored_nth:
  "restored h h' \<longleftrightarrow> length h' = length h \<and>
     (\<forall>a<length h. h' ! a = h ! a \<or> (unbound_node (h ! a) \<and> unbound_node (h' ! a)))"
  by (auto simp: restored_def list_all2_conv_all_nth)

lemma bound_not_unbound: "bound_node x \<Longrightarrow> \<not> unbound_node x"
  by (cases x) (simp_all add: bound_node_def unbound_node_def)

lemma succeeds_rel_refl: "trail_ok s \<Longrightarrow> succeeds_rel s s []"
  by (simp add: succeeds_rel_def)

lemma fails_rel_refl: "trail_ok s \<Longrightarrow> fails_rel s s"
  by (simp add: fails_rel_def)

lemma succeeds_rel_trail_ok: "succeeds_rel s s' cs \<Longrightarrow> trail_ok s'"
  by (simp add: succeeds_rel_def)

lemma succeeds_rel_Bind:
  assumes ok: "trail_ok s" and a: "a < length (heap s)" and u: "unbound_node (heap s ! a)"
  shows "succeeds_rel s
     (s\<lparr>heap := (heap s)[a := TVariable \<lparr>mIsBound = True, mReference = Some b\<rparr>],
        mTrail := mTrail s @ [a]\<rparr>) []"
proof -
  let ?h = "(heap s)[a := TVariable \<lparr>mIsBound = True, mReference = Some b\<rparr>]"
  have "is_Variable ?h v" if "is_Variable (heap s) v" for v
    using that by (cases "v = a") (auto simp: is_Variable_nth variable_node_def)
  moreover have "is_Variable ?h a"
    using a by (simp add: is_Variable_nth variable_node_def)
  ultimately have "trail_ok (s\<lparr>heap := ?h, mTrail := mTrail s @ [a]\<rparr>)"
    using ok by (simp add: trail_ok_def list_all_iff)
  then show ?thesis
    using u a by (simp add: succeeds_rel_def bound_node_def)
qed

lemma succeeds_rel_trans:
  assumes 1: "succeeds_rel s s1 cs1" and 2: "succeeds_rel s1 s2 cs2"
  shows "succeeds_rel s s2 (cs2 @ [length (mTrail s)])"
proof -
  from 1 obtain new1 where n1: "mTrail s1 = mTrail s @ new1"
    "\<forall>a\<in>set new1. a < length (heap s) \<and> unbound_node (heap s ! a) \<and> bound_node (heap s1 ! a)"
    "\<forall>a<length (heap s). a \<notin> set new1 \<longrightarrow> heap s1 ! a = heap s ! a"
    and l1: "length (heap s1) = length (heap s)" "out s1 = out s"
    unfolding succeeds_rel_def by blast
  from 2 obtain new2 where n2: "mTrail s2 = mTrail s1 @ new2"
    "\<forall>a\<in>set new2. a < length (heap s1) \<and> unbound_node (heap s1 ! a) \<and> bound_node (heap s2 ! a)"
    "\<forall>a<length (heap s1). a \<notin> set new2 \<longrightarrow> heap s2 ! a = heap s1 ! a"
    and l2: "length (heap s2) = length (heap s1)" "out s2 = out s1" "trail_ok s2"
    and c2: "\<forall>c\<in>set cs2. length (mTrail s1) \<le> c \<and> c \<le> length (mTrail s2)"
    unfolding succeeds_rel_def by blast
  have tr: "mTrail s2 = mTrail s @ (new1 @ new2)" using n1(1) n2(1) by simp
  have in_new: "a < length (heap s) \<and> unbound_node (heap s ! a) \<and> bound_node (heap s2 ! a)"
    if a: "a \<in> set (new1 @ new2)" for a
  proof (cases "a \<in> set new2")
    case True
    with n2(2) have A: "a < length (heap s1)" "unbound_node (heap s1 ! a)"
      "bound_node (heap s2 ! a)" by auto
    have "a \<notin> set new1" using A(2) n1(2) bound_not_unbound by blast
    with n1(3) A(1) l1 have "heap s1 ! a = heap s ! a" by simp
    with A l1 show ?thesis by simp
  next
    case False
    with a have a1: "a \<in> set new1" by simp
    with n1(2) have A: "a < length (heap s)" "unbound_node (heap s ! a)"
      "bound_node (heap s1 ! a)" by auto
    from n2(3) False A(1) l1 have "heap s2 ! a = heap s1 ! a" by simp
    with A show ?thesis by simp
  qed
  have others: "heap s2 ! a = heap s ! a"
    if "a < length (heap s)" "a \<notin> set (new1 @ new2)" for a
    using that n1(3) n2(3) l1 by simp
  have cs: "\<forall>c\<in>set (cs2 @ [length (mTrail s)]). length (mTrail s) \<le> c \<and> c \<le> length (mTrail s2)"
    using c2 n1(1) n2(1) by auto
  have "\<exists>new. mTrail s2 = mTrail s @ new \<and>
        (\<forall>a\<in>set new. a < length (heap s) \<and> unbound_node (heap s ! a) \<and>
                       bound_node (heap s2 ! a)) \<and>
        (\<forall>a<length (heap s). a \<notin> set new \<longrightarrow> heap s2 ! a = heap s ! a)"
    using tr in_new others by blast
  then show ?thesis
    unfolding succeeds_rel_def using l1 l2 cs by simp
qed

lemma fails_rel_UnWind_same:
  "fails_rel s s1 \<Longrightarrow> UnWind (length (mTrail s)) s1 = Some s1"
  by (simp add: fails_rel_def UnWind_here)

lemma succeeds_fails_UnWind:
  assumes 1: "succeeds_rel s s1 cs1" and 2: "fails_rel s1 s2"
  shows "\<exists>s3. UnWind (length (mTrail s)) s2 = Some s3 \<and> fails_rel s s3"
proof -
  from 1 obtain new1 where n1: "mTrail s1 = mTrail s @ new1"
    "\<forall>a\<in>set new1. a < length (heap s) \<and> unbound_node (heap s ! a) \<and> bound_node (heap s1 ! a)"
    "\<forall>a<length (heap s). a \<notin> set new1 \<longrightarrow> heap s1 ! a = heap s ! a"
    and l1: "length (heap s1) = length (heap s)" "out s1 = out s"
    unfolding succeeds_rel_def by blast
  from 2 have f: "trail_ok s2" "out s2 = out s1" "mTrail s2 = mTrail s1"
    "length (heap s2) = length (heap s1)"
    "\<forall>a<length (heap s1). heap s2 ! a = heap s1 ! a \<or>
        (unbound_node (heap s1 ! a) \<and> unbound_node (heap s2 ! a))"
    by (auto simp: fails_rel_def restored_nth)
  let ?h3 = "fold unbound_again (rev new1) (heap s2)"
  let ?s3 = "s2\<lparr>heap := ?h3, mTrail := mTrail s\<rparr>"
  have vars: "list_all (is_Variable (heap s2)) new1"
    using f(1) f(3) n1(1) by (simp add: trail_ok_def)
  have unw: "UnWind (length (mTrail s)) s2 = Some ?s3"
    using f(3) n1(1) vars by (intro UnWind_append) simp_all
  have ok3: "trail_ok ?s3"
    using f(1) f(3) n1(1)
    by (simp add: trail_ok_def list_all_iff is_Variable_nth nth_fold_unbound_again)
  have nodes: "?h3 ! a = heap s ! a \<or> (unbound_node (heap s ! a) \<and> unbound_node (?h3 ! a))"
    if a: "a < length (heap s)" for a
  proof (cases "a \<in> set new1")
    case True
    then have "is_Variable (heap s2) a" using vars by (simp add: list_all_iff)
    then have "unbound_node (?h3 ! a)"
      using True a l1 f(4) by (simp add: nth_fold_unbound_again is_Variable_nth unbound_node_clear)
    moreover have "unbound_node (heap s ! a)" using n1(2) True by blast
    ultimately show ?thesis by simp
  next
    case False
    then have "?h3 ! a = heap s2 ! a"
      using a l1 f(4) by (simp add: nth_fold_unbound_again)
    moreover have "heap s1 ! a = heap s ! a" using n1(3) a False by blast
    ultimately show ?thesis using f(5) a l1 by auto
  qed
  have "fails_rel s ?s3"
    using ok3 f(2) l1 f(4) nodes by (simp add: fails_rel_def restored_nth)
  with unw show ?thesis by blast
qed

lemma outcome_None: "(\<And>K R. f K R = None) \<Longrightarrow> outcome f s"
  by (simp add: outcome_def)

lemma outcome_succeeds:
  "succeeds_rel s s' cs \<Longrightarrow> (\<And>K R. f K R = K (unwinds cs R) s') \<Longrightarrow> outcome f s"
  unfolding outcome_def by blast

lemma outcome_fails: "fails_rel s s' \<Longrightarrow> (\<And>K R. f K R = R s') \<Longrightarrow> outcome f s"
  unfolding outcome_def by blast

lemma outcome_cases:
  assumes "outcome f s"
  obtains (none) "\<And>K R. f K R = None"
  | (succeeds) s' cs where "succeeds_rel s s' cs" "\<And>K R. f K R = K (unwinds cs R) s'"
  | (fails) s' where "fails_rel s s'" "\<And>K R. f K R = R s'"
  using assms unfolding outcome_def by blast

lemma outcome_Unify_step:
  assumes IH: "\<And>t0s t1s A s. trail_ok s \<Longrightarrow> outcome (\<lambda>K R. UnifyTerms n t0s t1s K R A s) s"
    and ok: "trail_ok s"
  shows "outcome (\<lambda>K R. Unify (Suc n) t0 t1 K R s) s"
proof (cases "Deref t0 (heap s)")
  case None
  then show ?thesis by (intro outcome_None) (simp add: Unify_no_Deref)
next
  case a: (Some a)
  show ?thesis
  proof (cases "Deref t1 (heap s)")
    case None
    then show ?thesis by (intro outcome_None) (simp add: Unify_no_Deref)
  next
    case b: (Some b)
    from Deref_Some [OF a] have a': "a < length (heap s)" "\<not> bound_node (heap s ! a)" by auto
    from Deref_Some [OF b] have b': "b < length (heap s)" "\<not> bound_node (heap s ! b)" by auto
    show ?thesis
    proof (cases "heap s ! a")
      case (TVariable v0)
      then have la: "lookup (heap s) a = Some (TVariable v0)"
        using a' by (simp add: lookup_def)
      have "unbound_node (heap s ! a)"
        using a'(2) TVariable by (simp add: bound_node_def unbound_node_def)
      from succeeds_rel_Bind [OF ok a'(1) this, of b] show ?thesis
        by (rule outcome_succeeds) (simp add: Unify_var0 [OF a b la])
    next
      case a0: (TAtom a0)
      then have la: "lookup (heap s) a = Some (TAtom a0)"
        using a' by (simp add: lookup_def)
      show ?thesis
      proof (cases "heap s ! b")
        case (TVariable v1)
        then have lb: "lookup (heap s) b = Some (TVariable v1)"
          using b' by (simp add: lookup_def)
        have "unbound_node (heap s ! b)"
          using b'(2) TVariable by (simp add: bound_node_def unbound_node_def)
        from succeeds_rel_Bind [OF ok b'(1) this, of a] show ?thesis
          by (rule outcome_succeeds) (simp add: Unify_var1 [OF a b la lb])
      next
        case (TAtom a1)
        then have lb: "lookup (heap s) b = Some (TAtom a1)"
          using b' by (simp add: lookup_def)
        show ?thesis
        proof (cases "mName a1 = mName a0 \<and> mArity a1 = mArity a0")
          case True
          have "outcome (\<lambda>K R. UnifyTerms n (mTerms a0) (mTerms a1) K R (mArity a0) s) s"
            using ok by (rule IH)
          then show ?thesis
            using True by (simp add: Unify_atoms [OF a b la lb])
        next
          case False
          from fails_rel_refl [OF ok] show ?thesis
            by (rule outcome_fails) (use False in \<open>auto simp: Unify_atoms [OF a b la lb]\<close>)
        qed
      qed
    qed
  qed
qed

lemma outcome_UnifyTerms_step:
  assumes IH1: "\<And>t0 t1 s. trail_ok s \<Longrightarrow> outcome (\<lambda>K R. Unify n t0 t1 K R s) s"
    and IH2: "\<And>t0s t1s A s. trail_ok s \<Longrightarrow> outcome (\<lambda>K R. UnifyTerms n t0s t1s K R A s) s"
    and ok: "trail_ok s"
  shows "outcome (\<lambda>K R. UnifyTerms (Suc n) t0s t1s K R A s) s"
proof (cases "A = 0")
  case True
  from succeeds_rel_refl [OF ok] show ?thesis
    by (rule outcome_succeeds) (simp add: True UnifyTerms_zero)
next
  case A: False
  let ?i = "length (mTrail s)"
  let ?r = "\<lambda>R s'. Option.bind (UnWind ?i s') R"
  show ?thesis
  proof (cases "\<exists>a t0s' b t1s'. t0s = Some a # t0s' \<and> t1s = Some b # t1s'")
    case False
    then have "UnifyTerms (Suc n) t0s t1s K R A s = None" for K R
      using A by (rule UnifyTerms_no_pair [rotated])
    then show ?thesis by (rule outcome_None)
  next
    case True
    then obtain a t0s' b t1s' where ts: "t0s = Some a # t0s'" "t1s = Some b # t1s'"
      by blast
    have eq: "UnifyTerms (Suc n) t0s t1s K R A s =
        Unify n a b (\<lambda>R' s'. UnifyTerms n t0s' t1s' K (?r R) (A - 1) s') (?r R) s" for K R
      using A ts by (simp add: UnifyTerms_pair)
    from IH1 [OF ok, of a b] show ?thesis
    proof (cases rule: outcome_cases)
      case none
      show ?thesis by (rule outcome_None) (simp add: eq none)
    next
      case (fails s1)
      have "UnifyTerms (Suc n) t0s t1s K R A s = R s1" for K R
        using fails(2) fails_rel_UnWind_same [OF fails(1)] by (simp add: eq)
      with fails(1) show ?thesis by (rule outcome_fails)
    next
      case first: (succeeds s1 cs1)
      have eq1: "UnifyTerms (Suc n) t0s t1s K R A s =
          UnifyTerms n t0s' t1s' K (?r R) (A - 1) s1" for K R
        using first(2) by (simp add: eq)
      from IH2 [OF succeeds_rel_trail_ok [OF first(1)], of t0s' t1s' "A - 1"] show ?thesis
      proof (cases rule: outcome_cases)
        case none
        show ?thesis by (rule outcome_None) (simp add: eq1 none)
      next
        case (succeeds s2 cs2)
        from succeeds_rel_trans [OF first(1) succeeds(1)] show ?thesis
          by (rule outcome_succeeds) (simp add: eq1 succeeds(2) unwinds_snoc)
      next
        case (fails s2)
        from succeeds_fails_UnWind [OF first(1) fails(1)] obtain s3 where
          s3: "UnWind ?i s2 = Some s3" "fails_rel s s3" by blast
        have "UnifyTerms (Suc n) t0s t1s K R A s = R s3" for K R
          using fails(2) s3(1) by (simp add: eq1)
        with s3(2) show ?thesis by (rule outcome_fails)
      qed
    qed
  qed
qed

lemma outcome_Unify_UnifyTerms:
  "(\<forall>t0 t1 s. trail_ok s \<longrightarrow> outcome (\<lambda>K R. Unify n t0 t1 K R s) s) \<and>
   (\<forall>t0s t1s A s. trail_ok s \<longrightarrow> outcome (\<lambda>K R. UnifyTerms n t0s t1s K R A s) s)"
proof (induction n)
  case 0
  show ?case by (simp add: outcome_None Unify.simps UnifyTerms.simps)
next
  case (Suc n)
  then show ?case
    using outcome_Unify_step [of n] outcome_UnifyTerms_step [of n] by blast
qed

subsection \<open>A sequence of pairs, with enough depth\<close>

lemma Unify_K_succeeds_rel:
  assumes ok: "trail_ok s" and K: "\<And>K R. \<exists>R'. Unify n a b K R s = K R' s1"
  shows "\<exists>cs. succeeds_rel s s1 cs"
proof -
  from outcome_Unify_UnifyTerms [of n] ok have "outcome (\<lambda>K R. Unify n a b K R s) s" by blast
  then show ?thesis
  proof (cases rule: outcome_cases)
    case none
    from K [of "\<lambda>Q s'. Some s'" "\<lambda>s'. Some s'"] none show ?thesis by simp
  next
    case (succeeds s' cs)
    from K [of "\<lambda>Q s'. Some s'" "\<lambda>s'. Some s'"] succeeds(2) have "s' = s1" by simp
    with succeeds(1) show ?thesis by blast
  next
    case (fails s')
    from K [of "\<lambda>Q s'. None" "\<lambda>s'. Some s'"] fails(2) show ?thesis by simp
  qed
qed

lemma Unify_R_fails_rel:
  assumes ok: "trail_ok s" and R: "\<And>K R. Unify n a b K R s = R s1"
  shows "fails_rel s s1"
proof -
  from outcome_Unify_UnifyTerms [of n] ok have "outcome (\<lambda>K R. Unify n a b K R s) s" by blast
  then show ?thesis
  proof (cases rule: outcome_cases)
    case none
    from R [of "\<lambda>Q s'. Some s'" "\<lambda>s'. Some s'"] none show ?thesis by simp
  next
    case (succeeds s' cs)
    from R [of "\<lambda>Q s'. None" "\<lambda>s'. Some s'"] succeeds(2) show ?thesis by simp
  next
    case (fails s')
    from R [of "\<lambda>Q s'. Some s'" "\<lambda>s'. Some s'"] fails(2) have "s' = s1" by simp
    with fails(1) show ?thesis by simp
  qed
qed

lemma UnWind_Some_le: "UnWind i x = Some y \<Longrightarrow> i \<le> length (mTrail x)"
proof (induction i x rule: UnWind.induct)
  case (1 Index s)
  show ?case
  proof (cases "length (mTrail s) = Index")
    case True
    then show ?thesis by simp
  next
    case False
    with "1.prems" obtain h' where h': "mTrail s \<noteq> []"
      "set_IsBound (last (mTrail s)) False (heap s) = Some h'"
      "UnWind Index (s\<lparr>heap := h', mTrail := butlast (mTrail s)\<rparr>) = Some y"
      by (subst (asm) UnWind.simps) (auto split: if_splits option.splits)
    from "1.IH" [OF False h'] show ?thesis by simp
  qed
qed

lemma UnWind_twice: "UnWind i x = Some y \<Longrightarrow> j \<le> i \<Longrightarrow> UnWind j x = UnWind j y"
proof (induction i x rule: UnWind.induct)
  case (1 Index s)
  show ?case
  proof (cases "length (mTrail s) = Index")
    case True
    with "1.prems"(1) show ?thesis by (simp add: UnWind_here)
  next
    case False
    with "1.prems"(1) obtain h' where h': "mTrail s \<noteq> []"
      "set_IsBound (last (mTrail s)) False (heap s) = Some h'"
      "UnWind Index (s\<lparr>heap := h', mTrail := butlast (mTrail s)\<rparr>) = Some y"
      by (subst (asm) UnWind.simps) (auto split: if_splits option.splits)
    from UnWind_Some_le [OF "1.prems"(1)] False "1.prems"(2) have "length (mTrail s) \<noteq> j"
      by simp
    then have "UnWind j s = UnWind j (s\<lparr>heap := h', mTrail := butlast (mTrail s)\<rparr>)"
      using h'(1,2) by (subst UnWind.simps) simp
    with "1.IH" [OF False h' "1.prems"(2)] show ?thesis by simp
  qed
qed

lemma UnifyTerms_calls_K:
  "pairs_unify ps s s' \<Longrightarrow>
   \<exists>N. \<forall>n\<ge>N. \<forall>K R. \<exists>R'.
     UnifyTerms n (map (Some \<circ> fst) ps @ t0s) (map (Some \<circ> snd) ps @ t1s) K R
       (int (length ps)) s = K R' s'"
proof (induction ps arbitrary: s)
  case Nil
  have "\<exists>R'. UnifyTerms n t0s t1s K R 0 s = K R' s" if "Suc 0 \<le> n" for n K R
  proof -
    from that obtain m where "n = Suc m" by (cases n) auto
    then show ?thesis by (auto simp: UnifyTerms_zero)
  qed
  then have "\<exists>N. \<forall>n\<ge>N. \<forall>K R. \<exists>R'. UnifyTerms n t0s t1s K R 0 s = K R' s"
    by blast
  with Nil show ?case by simp
next
  case (Cons p ps)
  obtain a b where p: "p = (a, b)" by (cases p)
  from Cons.prems p obtain s1 where s1: "Unify_calls_K a b s s1" "pairs_unify ps s1 s'"
    by auto
  from s1(1) obtain N1 where N1: "\<And>n K R. N1 \<le> n \<Longrightarrow> \<exists>R'. Unify n a b K R s = K R' s1"
    unfolding Unify_calls_K_def by blast
  from Cons.IH [OF s1(2)] obtain N2 where
    N2: "\<And>n K R. N2 \<le> n \<Longrightarrow> \<exists>R'. UnifyTerms n (map (Some \<circ> fst) ps @ t0s)
        (map (Some \<circ> snd) ps @ t1s) K R (int (length ps)) s1 = K R' s'"
    by blast
  have "\<exists>R'. UnifyTerms n (map (Some \<circ> fst) (p # ps) @ t0s) (map (Some \<circ> snd) (p # ps) @ t1s)
      K R (int (length (p # ps))) s = K R' s'"
    if n: "Suc (max N1 N2) \<le> n" for n K R
  proof -
    from n obtain m where m: "n = Suc m" "N1 \<le> m" "N2 \<le> m" by (cases n) auto
    let ?r = "\<lambda>s'. Option.bind (UnWind (length (mTrail s)) s') R"
    let ?k = "\<lambda>(Q::Retry) s'. UnifyTerms m (map (Some \<circ> fst) ps @ t0s)
        (map (Some \<circ> snd) ps @ t1s) K ?r (int (length ps)) s'"
    from N1 [OF m(2), of ?k ?r] obtain Q :: Retry where "Unify m a b ?k ?r s = ?k Q s1" by blast
    moreover from N2 [OF m(3), of K ?r] obtain R' where "?k Q s1 = K R' s'" by blast
    ultimately show ?thesis
      by (auto simp: p m(1) UnifyTerms_pair)
  qed
  then show ?case by blast
qed

lemma UnifyTerms_calls_R:
  "pairs_unify ps s sk \<Longrightarrow> Unify_calls_R a b sk sf \<Longrightarrow> trail_ok s \<Longrightarrow> int (length ps) < A \<Longrightarrow>
   \<exists>s'' N. UnWind (length (mTrail s)) sf = Some s'' \<and> fails_rel s s'' \<and>
     (\<forall>n\<ge>N. \<forall>K R.
        UnifyTerms n (map (Some \<circ> fst) ps @ Some a # t0s) (map (Some \<circ> snd) ps @ Some b # t1s)
          K R A s = R s'')"
proof (induction ps arbitrary: s A)
  case Nil
  then have sk: "sk = s" by simp
  from Nil(2) sk obtain N1 where N1: "\<And>n K R. N1 \<le> n \<Longrightarrow> Unify n a b K R s = R sf"
    unfolding Unify_calls_R_def by blast
  have f: "fails_rel s sf"
    by (rule Unify_R_fails_rel [OF Nil(3), of N1]) (rule N1, simp)
  have u: "UnWind (length (mTrail s)) sf = Some sf"
    using f by (rule fails_rel_UnWind_same)
  have "UnifyTerms n (Some a # t0s) (Some b # t1s) K R A s = R sf" if n: "Suc N1 \<le> n" for n K R
  proof -
    from n obtain m where m: "n = Suc m" "N1 \<le> m" by (cases n) auto
    from Nil(4) have "A \<noteq> 0" by simp
    then show ?thesis by (simp add: m(1) UnifyTerms_pair N1 [OF m(2)] u)
  qed
  with f u show ?case by auto
next
  case (Cons p ps)
  obtain a1 b1 where p: "p = (a1, b1)" by (cases p)
  from Cons.prems(1) p obtain s1 where s1: "Unify_calls_K a1 b1 s s1" "pairs_unify ps s1 sk"
    by auto
  from s1(1) obtain N1 where N1: "\<And>n K R. N1 \<le> n \<Longrightarrow> \<exists>R'. Unify n a1 b1 K R s = K R' s1"
    unfolding Unify_calls_K_def by blast
  from Unify_K_succeeds_rel [OF Cons.prems(3), of N1 a1 b1 s1] N1
  obtain cs where cs: "succeeds_rel s s1 cs" by blast
  then have ok1: "trail_ok s1" by (rule succeeds_rel_trail_ok)
  from Cons.prems(4) have A1: "int (length ps) < A - 1" by simp
  from Cons.IH [OF s1(2) Cons.prems(2) ok1 A1] obtain sr N2 where
    sr: "UnWind (length (mTrail s1)) sf = Some sr" "fails_rel s1 sr"
    and N2: "\<And>n K R. N2 \<le> n \<Longrightarrow> UnifyTerms n (map (Some \<circ> fst) ps @ Some a # t0s)
        (map (Some \<circ> snd) ps @ Some b # t1s) K R (A - 1) s1 = R sr"
    by blast
  from succeeds_fails_UnWind [OF cs sr(2)] obtain s3 where
    s3: "UnWind (length (mTrail s)) sr = Some s3" "fails_rel s s3" by blast
  have "length (mTrail s) \<le> length (mTrail s1)"
    using cs by (auto simp: succeeds_rel_def)
  from UnWind_twice [OF sr(1) this] s3(1)
  have u: "UnWind (length (mTrail s)) sf = Some s3" by simp
  have "UnifyTerms n (map (Some \<circ> fst) (p # ps) @ Some a # t0s)
      (map (Some \<circ> snd) (p # ps) @ Some b # t1s) K R A s = R s3"
    if n: "Suc (max N1 N2) \<le> n" for n K R
  proof -
    from n obtain m where m: "n = Suc m" "N1 \<le> m" "N2 \<le> m" by (cases n) auto
    from Cons.prems(4) have A: "A \<noteq> 0" by auto
    let ?r = "\<lambda>s'. Option.bind (UnWind (length (mTrail s)) s') R"
    let ?k = "\<lambda>(Q::Retry) s'. UnifyTerms m (map (Some \<circ> fst) ps @ Some a # t0s)
        (map (Some \<circ> snd) ps @ Some b # t1s) K ?r (A - 1) s'"
    from N1 [OF m(2), of ?k ?r] obtain Q :: Retry where "Unify m a1 b1 ?k ?r s = ?k Q s1" by blast
    moreover have "?k Q s1 = R s3" by (simp add: N2 [OF m(3)] s3(1))
    ultimately show ?thesis
      using A by (simp add: p m(1) UnifyTerms_pair)
  qed
  with u s3(2) show ?case by blast
qed

lemma Unify_calls_K_variable:
  assumes "lookup (heap s) a = Some (TVariable v)" and "\<not> mIsBound v"
    and "Deref b (heap s) = Some b'"
  shows "Unify_calls_K a b s
     (s\<lparr>heap := (heap s)[a := TVariable \<lparr>mIsBound = True, mReference = Some b'\<rparr>],
        mTrail := mTrail s @ [a]\<rparr>)"
proof -
  have d: "Deref a (heap s) = Some a"
    by (rule Deref_not_bound_var [OF assms(1)]) (simp add: bound_node_def assms(2))
  have "\<exists>R'. Unify n a b K R s =
      K R' (s\<lparr>heap := (heap s)[a := TVariable \<lparr>mIsBound = True, mReference = Some b'\<rparr>],
        mTrail := mTrail s @ [a]\<rparr>)" if "Suc 0 \<le> n" for n K R
  proof -
    from that obtain m where "n = Suc m" by (cases n) auto
    then show ?thesis using Unify_var0 [OF d assms(3) assms(1)] by auto
  qed
  then show ?thesis unfolding Unify_calls_K_def by blast
qed

lemma Unify_calls_R_atoms:
  assumes "lookup (heap s) a = Some (TAtom a0)" and "lookup (heap s) b = Some (TAtom a1)"
    and "mName a1 \<noteq> mName a0 \<or> mArity a1 \<noteq> mArity a0"
  shows "Unify_calls_R a b s s"
proof -
  have da: "Deref a (heap s) = Some a" by (rule Deref_Atom [OF assms(1)])
  have db: "Deref b (heap s) = Some b" by (rule Deref_Atom [OF assms(2)])
  have "Unify n a b K R s = R s" if "Suc 0 \<le> n" for n K R
  proof -
    from that obtain m where "n = Suc m" by (cases n) auto
    then show ?thesis using Unify_atoms [OF da db assms(1,2)] assms(3) by auto
  qed
  then show ?thesis unfolding Unify_calls_R_def by blast
qed


lemma Unify_calls_K_atoms:
  assumes "lookup (heap s) a = Some (TAtom a0)" and "lookup (heap s) b = Some (TAtom a1)"
    and "mName a1 = mName a0" and "mArity a1 = mArity a0"
    and "\<exists>N. \<forall>n\<ge>N. \<forall>K R. \<exists>Q. UnifyTerms n (mTerms a0) (mTerms a1) K R (mArity a0) s = K Q s'"
  shows "Unify_calls_K a b s s'"
proof -
  have da: "Deref a (heap s) = Some a" by (rule Deref_Atom [OF assms(1)])
  have db: "Deref b (heap s) = Some b" by (rule Deref_Atom [OF assms(2)])
  from assms(5) obtain N where
    N: "\<And>n K R. N \<le> n \<Longrightarrow> \<exists>Q. UnifyTerms n (mTerms a0) (mTerms a1) K R (mArity a0) s = K Q s'"
    by blast
  have "\<exists>Q. Unify n a b K R s = K Q s'" if "Suc N \<le> n" for n K R
  proof -
    from that obtain m where m: "n = Suc m" "N \<le> m" by (cases n) auto
    have "Unify (Suc m) a b K R s = UnifyTerms m (mTerms a0) (mTerms a1) K R (mArity a0) s"
      using Unify_atoms [OF da db assms(1,2)] assms(3,4) by simp
    with N [OF m(2), of K R] m(1) show ?thesis by simp
  qed
  then show ?thesis unfolding Unify_calls_K_def by blast
qed

subsection \<open>Unification of ground terms\<close>

lemma UnifyTerms_ground:
  assumes IH: "\<And>t a b tb n K R. t \<in> set tas \<Longrightarrow> represents (heap s) a t \<Longrightarrow>
      represents (heap s) b tb \<Longrightarrow> depth t \<le> n \<Longrightarrow>
      Unify n a b K R s =
        (if t = tb then K (unwinds (replicate (arity t) (length (mTrail s))) R) s else R s)"
  shows "list_all2 (\<lambda>p t. case p of None \<Rightarrow> False | Some a' \<Rightarrow> represents (heap s) a' t) ps tas \<Longrightarrow>
     list_all2 (\<lambda>p t. case p of None \<Rightarrow> False | Some a' \<Rightarrow> represents (heap s) a' t) qs tbs \<Longrightarrow>
     length tas = length tbs \<Longrightarrow>
     Suc (sum_list (map depth tas) + length tas) \<le> m \<Longrightarrow>
     UnifyTerms m (ps @ rest0) (qs @ rest1) K R (int (length tas)) s =
       (if tas = tbs then K (unwinds (replicate (length tas) (length (mTrail s))) R) s else R s)"
  using IH
proof (induction tas arbitrary: ps qs tbs m R)
  case Nil
  then obtain m' where "m = Suc m'" by (cases m) auto
  with Nil show ?case by (simp add: UnifyTerms_zero)
next
  case (Cons ta tas)
  let ?i = "length (mTrail s)"
  let ?r = "\<lambda>s'. Option.bind (UnWind ?i s') R"
  from Cons.prems(1) obtain a ps' where ps: "ps = Some a # ps'" "represents (heap s) a ta"
    "list_all2 (\<lambda>p t. case p of None \<Rightarrow> False | Some a' \<Rightarrow> represents (heap s) a' t) ps' tas"
    by (auto simp: list_all2_Cons2 split: option.splits)
  from Cons.prems(3) obtain tb tbs' where tbs: "tbs = tb # tbs'" "length tas = length tbs'"
    by (cases tbs) auto
  from Cons.prems(2) tbs obtain b qs' where qs: "qs = Some b # qs'" "represents (heap s) b tb"
    "list_all2 (\<lambda>p t. case p of None \<Rightarrow> False | Some a' \<Rightarrow> represents (heap s) a' t) qs' tbs'"
    by (auto simp: list_all2_Cons2 split: option.splits)
  from Cons.prems(4) obtain m' where m: "m = Suc m'" "depth ta \<le> m'"
    "Suc (sum_list (map depth tas) + length tas) \<le> m'"
    by (cases m) auto
  have rs: "?r s = R s" by (simp add: UnWind_here)
  have first: "Unify m' a b K' ?r s = (if ta = tb then K' (unwinds (replicate (arity ta) ?i) ?r) s else R s)"
    for K'
    using Cons.prems(5) [OF _ ps(2) qs(2) m(2), of K' ?r] rs by simp
  have rest: "UnifyTerms m' (ps' @ rest0) (qs' @ rest1) K ?r (int (length tas)) s =
      (if tas = tbs' then K (unwinds (replicate (length tas) ?i) ?r) s else R s)"
    using Cons.IH [OF ps(3) qs(3) tbs(2) m(3), of ?r] Cons.prems(5) rs by simp
  have "unwinds (replicate (length tas) ?i) ?r = unwinds (replicate (Suc (length tas)) ?i) R"
    by (simp add: unwinds_snoc [symmetric] replicate_append_same)
  with first rest show ?case
    by (simp add: ps qs tbs m UnifyTerms_pair)
qed

lemma Unify_ground:
  "represents (heap s) a ta \<Longrightarrow> represents (heap s) b tb \<Longrightarrow> depth ta \<le> n \<Longrightarrow>
   Unify n a b K R s =
     (if ta = tb then K (unwinds (replicate (arity ta) (length (mTrail s))) R) s else R s)"
proof (induction ta arbitrary: a b tb n K R)
  case (Fn f tas)
  obtain g tbs where tb: "tb = Fn g tbs" by (cases tb)
  from Fn.prems(1) obtain at0 where at0: "lookup (heap s) a = Some (TAtom at0)"
    "mName at0 = f" "mArity at0 = int (length tas)" "length tas \<le> length (mTerms at0)"
    "list_all2 (\<lambda>p t. case p of None \<Rightarrow> False | Some a' \<Rightarrow> represents (heap s) a' t)
       (take (length tas) (mTerms at0)) tas"
    by (auto split: option.splits Term.splits)
  from Fn.prems(2) tb obtain at1 where at1: "lookup (heap s) b = Some (TAtom at1)"
    "mName at1 = g" "mArity at1 = int (length tbs)" "length tbs \<le> length (mTerms at1)"
    "list_all2 (\<lambda>p t. case p of None \<Rightarrow> False | Some a' \<Rightarrow> represents (heap s) a' t)
       (take (length tbs) (mTerms at1)) tbs"
    by (auto split: option.splits Term.splits)
  from Fn.prems(3) obtain n' where n: "n = Suc n'"
    "Suc (sum_list (map depth tas) + length tas) \<le> n'"
    by (cases n) auto
  have unf: "Unify n a b K R s =
      (if g = f \<and> length tbs = length tas
       then UnifyTerms n' (mTerms at0) (mTerms at1) K R (int (length tas)) s
       else R s)"
    using Unify_atoms [OF Deref_Atom [OF at0(1)] Deref_Atom [OF at1(1)] at0(1) at1(1), of n' K R]
    by (simp add: n at0 at1)
  show ?case
  proof (cases "g = f \<and> length tbs = length tas")
    case False
    with unf tb show ?thesis by auto
  next
    case True
    have "UnifyTerms n' (take (length tas) (mTerms at0) @ drop (length tas) (mTerms at0))
        (take (length tbs) (mTerms at1) @ drop (length tbs) (mTerms at1)) K R (int (length tas)) s =
      (if tas = tbs then K (unwinds (replicate (length tas) (length (mTrail s))) R) s else R s)"
      apply (rule UnifyTerms_ground)
          apply (rule Fn.IH; assumption)
         apply (rule at0(5))
        apply (rule at1(5))
       apply (simp add: True)
      apply (rule n(2))
      done
    then have lists: "UnifyTerms n' (mTerms at0) (mTerms at1) K R (int (length tas)) s =
      (if tas = tbs then K (unwinds (replicate (length tas) (length (mTrail s))) R) s else R s)"
      by (simp only: append_take_drop_id)
    have "Unify n a b K R s = UnifyTerms n' (mTerms at0) (mTerms at1) K R (int (length tas)) s"
      using True by (simp only: unf if_True simp_thms)
    moreover have "(Fn f tas = tb) = (tas = tbs)"
      using True by (simp only: tb gterm.inject simp_thms)
    moreover have "arity (Fn f tas) = length tas" by (simp only: arity.simps)
    ultimately show ?thesis
      by (simp only: lists)
  qed
qed

subsection \<open>The outer retry comes last\<close>

lemma Unify_lifted_step:
  assumes IH: "\<And>K K' R t0s t1s A s. lifted R0 K K' \<Longrightarrow>
      UnifyTerms n t0s t1s K' (\<lambda>s'. Option.bind (R s') R0) A s =
        Option.bind (UnifyTerms n t0s t1s K R A s) R0"
    and KK: "lifted R0 K K'"
  shows "Unify (Suc n) t0 t1 K' (\<lambda>s'. Option.bind (R s') R0) s =
        Option.bind (Unify (Suc n) t0 t1 K R s) R0"
proof -
  have K': "K' (\<lambda>s'. Option.bind (R s') R0) = (\<lambda>s. Option.bind (K R s) R0)"
    using KK by (auto simp: lifted_def)
  show ?thesis
    unfolding Unify.simps
    by (simp add: K' IH [OF KK] split: option.splits Term.splits)
qed

lemma UnifyTerms_lifted_step:
  assumes IH1: "\<And>K K' R t0 t1 s. lifted R0 K K' \<Longrightarrow>
      Unify n t0 t1 K' (\<lambda>s'. Option.bind (R s') R0) s = Option.bind (Unify n t0 t1 K R s) R0"
    and IH2: "\<And>K K' R t0s t1s A s. lifted R0 K K' \<Longrightarrow>
      UnifyTerms n t0s t1s K' (\<lambda>s'. Option.bind (R s') R0) A s =
        Option.bind (UnifyTerms n t0s t1s K R A s) R0"
    and KK: "lifted R0 K K'"
  shows "UnifyTerms (Suc n) t0s t1s K' (\<lambda>s'. Option.bind (R s') R0) A s =
        Option.bind (UnifyTerms (Suc n) t0s t1s K R A s) R0"
proof (cases "A = 0")
  case True
  then show ?thesis using KK by (simp add: UnifyTerms_zero lifted_def)
next
  case A: False
  show ?thesis
  proof (cases "\<exists>a t0s' b t1s'. t0s = Some a # t0s' \<and> t1s = Some b # t1s'")
    case False
    with A show ?thesis by (simp add: UnifyTerms_no_pair)
  next
    case True
    then obtain a t0s' b t1s' where ts: "t0s = Some a # t0s'" "t1s = Some b # t1s'"
      by blast
    let ?r = "\<lambda>s'. Option.bind (UnWind (length (mTrail s)) s') R"
    let ?k = "\<lambda>(R'::Retry) s'. UnifyTerms n t0s' t1s' K ?r (A - 1) s'"
    let ?k' = "\<lambda>(R'::Retry) s'. UnifyTerms n t0s' t1s' K'
        (\<lambda>s'. Option.bind (?r s') R0) (A - 1) s'"
    have "lifted R0 ?k ?k'"
      unfolding lifted_def by (intro allI) (rule IH2 [OF KK])
    from IH1 [OF this, of a b ?r s] show ?thesis
      using A by (simp add: ts UnifyTerms_pair)
  qed
qed

lemma Unify_UnifyTerms_lifted:
  "(\<forall>K K' R t0 t1 s. lifted R0 K K' \<longrightarrow>
      Unify n t0 t1 K' (\<lambda>s'. Option.bind (R s') R0) s = Option.bind (Unify n t0 t1 K R s) R0) \<and>
   (\<forall>K K' R t0s t1s A s. lifted R0 K K' \<longrightarrow>
      UnifyTerms n t0s t1s K' (\<lambda>s'. Option.bind (R s') R0) A s =
        Option.bind (UnifyTerms n t0s t1s K R A s) R0)"
proof (induction n)
  case 0
  show ?case by (simp add: Unify.simps UnifyTerms.simps)
next
  case (Suc n)
  show ?case
  proof (intro conjI allI impI)
    fix K K' R t0 t1 s assume "lifted R0 K K'"
    then show "Unify (Suc n) t0 t1 K' (\<lambda>s'. Option.bind (R s') R0) s =
        Option.bind (Unify (Suc n) t0 t1 K R s) R0"
      using Suc by (intro Unify_lifted_step) blast+
  next
    fix K K' R t0s t1s A s assume "lifted R0 K K'"
    then show "UnifyTerms (Suc n) t0s t1s K' (\<lambda>s'. Option.bind (R s') R0) A s =
        Option.bind (UnifyTerms (Suc n) t0s t1s K R A s) R0"
      using Suc by (intro UnifyTerms_lifted_step) blast+
  qed
qed

lemma Unify_lifted:
  "lifted R0 K K' \<Longrightarrow>
   Unify n t0 t1 K' (\<lambda>s'. Option.bind (R s') R0) s = Option.bind (Unify n t0 t1 K R s) R0"
  using Unify_UnifyTerms_lifted by blast

lemma Member_lifted:
  "(\<forall>K K' R Item List s. lifted R0 K K' \<longrightarrow>
      Member0 n Item List K' (\<lambda>s'. Option.bind (R s') R0) s =
        Option.bind (Member0 n Item List K R s) R0) \<and>
   (\<forall>K K' R Item List s. lifted R0 K K' \<longrightarrow>
      Member1 n Item List K' (\<lambda>s'. Option.bind (R s') R0) s =
        Option.bind (Member1 n Item List K R s) R0)"
proof (induction n)
  case 0
  show ?case by simp
next
  case (Suc n)
  show ?case
  proof (intro conjI allI impI)
    fix K K' :: Continuation and R :: Retry and Item List :: addr and s :: state
    assume KK: "lifted R0 K K'"
    obtain v s1 where v: "mkVar s = (v, s1)" by (cases "mkVar s")
    obtain A1 s2 where A1: "mkAtom2 ''.'' Item v s1 = (A1, s2)" by (cases "mkAtom2 ''.'' Item v s1")
    let ?r = "\<lambda>s'. Option.bind (UnWind (length (mTrail s2)) s') (Member1 n Item List K R)"
    have "Member1 n Item List K' (\<lambda>s'. Option.bind (R s') R0) s' =
        Option.bind (Member1 n Item List K R s') R0" for s'
      using Suc KK by blast
    then have m1: "Member1 n Item List K' (\<lambda>s'. Option.bind (R s') R0) =
        (\<lambda>s'. Option.bind (Member1 n Item List K R s') R0)"
      by (rule ext)
    have "lifted R0 (\<lambda>R s'. K R s') (\<lambda>R s'. K' R s')" using KK by simp
    from Unify_lifted [OF this, of n List A1 ?r s2]
    show "Member0 (Suc n) Item List K' (\<lambda>s'. Option.bind (R s') R0) s =
        Option.bind (Member0 (Suc n) Item List K R s) R0"
      by (simp add: v A1 m1)
  next
    fix K K' :: Continuation and R :: Retry and Item List :: addr and s :: state
    assume KK: "lifted R0 K K'"
    obtain H s1 where H: "mkVar s = (H, s1)" by (cases "mkVar s")
    obtain T s2 where T: "mkVar s1 = (T, s2)" by (cases "mkVar s1")
    obtain A1 s3 where A1: "mkAtom2 ''.'' H T s2 = (A1, s3)" by (cases "mkAtom2 ''.'' H T s2")
    let ?r = "\<lambda>s'. Option.bind (UnWind (length (mTrail s3)) s') R"
    have "Member0 n Item T K' (\<lambda>s'. Option.bind (r s') R0) s' =
        Option.bind (Member0 n Item T K r s') R0" for r :: Retry and s'
      using Suc KK by blast
    then have "lifted R0 (\<lambda>R s'. Member0 n Item T K R s') (\<lambda>R s'. Member0 n Item T K' R s')"
      unfolding lifted_def by blast
    from Unify_lifted [OF this, of n List A1 ?r s3]
    show "Member1 (Suc n) Item List K' (\<lambda>s'. Option.bind (R s') R0) s =
        Option.bind (Member1 (Suc n) Item List K R s) R0"
      by (simp add: H T A1)
  qed
qed

lemma Member0_lifted:
  "lifted R0 K K' \<Longrightarrow>
   Member0 n Item List K' (\<lambda>s'. Option.bind (R s') R0) s =
     Option.bind (Member0 n Item List K R s) R0"
  using Member_lifted by blast

lemma main_query_outer_retry:
  "main_query n item list list2 R0 s =
     Option.bind (main_query n item list list2 (\<lambda>s'. Some s') s) R0"
proof -
  let ?Kp = "\<lambda>R s'. Option.bind (Print n item s') R"
  have Kp: "lifted R0 ?Kp ?Kp"
    by (simp add: lifted_def)
  have "lifted R0 (\<lambda>R. Member0 n item list2 ?Kp R) (\<lambda>R. Member0 n item list2 ?Kp R)"
    unfolding lifted_def by (intro allI) (rule Member0_lifted [OF Kp])
  from Member0_lifted [OF this, of n item list "\<lambda>s'. Some s'" s]
  show ?thesis by (simp add: main_query_def)
qed

subsection \<open>A deeper bound on the calls keeps the result\<close>

lemma le_Retry_refl: "le_Retry R R"
  by (simp add: le_Retry_def)

lemma le_Retry_bind:
  "le_Retry R R' \<Longrightarrow> le_Retry (\<lambda>s. Option.bind (f s) R) (\<lambda>s. Option.bind (f s) R')"
  by (auto simp: le_Retry_def bind_eq_Some_conv)

lemma le_RetryD: "le_Retry R R' \<Longrightarrow> R s = Some x \<Longrightarrow> R' s = Some x"
  by (simp add: le_Retry_def)

lemma le_ContinuationD:
  "le_Continuation K K' \<Longrightarrow> le_Retry R R' \<Longrightarrow> K R s = Some x \<Longrightarrow> K' R' s = Some x"
  unfolding le_Continuation_def by blast

lemma Unify_UnifyTerms_depth_mono:
  "(\<forall>m K K' R R' t0 t1 s x. n \<le> m \<longrightarrow> le_Continuation K K' \<longrightarrow> le_Retry R R' \<longrightarrow>
      Unify n t0 t1 K R s = Some x \<longrightarrow> Unify m t0 t1 K' R' s = Some x) \<and>
   (\<forall>m K K' R R' t0s t1s A s x. n \<le> m \<longrightarrow> le_Continuation K K' \<longrightarrow> le_Retry R R' \<longrightarrow>
      UnifyTerms n t0s t1s K R A s = Some x \<longrightarrow> UnifyTerms m t0s t1s K' R' A s = Some x)"
proof (induction n)
  case 0
  show ?case by (simp add: Unify.simps UnifyTerms.simps)
next
  case (Suc n)
  have IH1: "Unify n t0 t1 K R s = Some x \<Longrightarrow> Unify m t0 t1 K' R' s = Some x"
    if "n \<le> m" "le_Continuation K K'" "le_Retry R R'" for m K K' R R' t0 t1 s x
    using Suc that by blast
  have IH2: "UnifyTerms n t0s t1s K R A s = Some x \<Longrightarrow> UnifyTerms m t0s t1s K' R' A s = Some x"
    if "n \<le> m" "le_Continuation K K'" "le_Retry R R'" for m K K' R R' t0s t1s A s x
    using Suc that by blast
  show ?case
  proof (intro conjI allI impI)
    fix m K K' R R' t0 t1 s x
    assume m: "Suc n \<le> m" and K: "le_Continuation K K'" and R: "le_Retry R R'"
      and run: "Unify (Suc n) t0 t1 K R s = Some x"
    from m obtain m' where m': "m = Suc m'" "n \<le> m'" by (cases m) auto
    have KR: "K R s' = Some y \<Longrightarrow> K' R' s' = Some y" for s' y
      using le_ContinuationD [OF K R] by blast
    have B: "Option.bind z (K R) = Some y \<Longrightarrow> Option.bind z (K' R') = Some y" for z y
      using KR by (cases z) auto
    show "Unify m t0 t1 K' R' s = Some x"
      using run B IH2 [OF m'(2) K R] le_RetryD [OF R]
      unfolding m'(1) Unify.simps
      by (auto split: option.splits Term.splits if_splits)
  next
    fix m K K' R R' t0s t1s A s x
    assume m: "Suc n \<le> m" and K: "le_Continuation K K'" and R: "le_Retry R R'"
      and run: "UnifyTerms (Suc n) t0s t1s K R A s = Some x"
    from m obtain m' where m': "m = Suc m'" "n \<le> m'" by (cases m) auto
    show "UnifyTerms m t0s t1s K' R' A s = Some x"
    proof (cases "A = 0")
      case True
      with run le_ContinuationD [OF K R] show ?thesis
        by (simp add: m'(1) UnifyTerms_zero)
    next
      case A: False
      show ?thesis
      proof (cases "\<exists>a t0s' b t1s'. t0s = Some a # t0s' \<and> t1s = Some b # t1s'")
        case False
        with A run show ?thesis by (simp add: UnifyTerms_no_pair)
      next
        case True
        then obtain a t0s' b t1s' where ts: "t0s = Some a # t0s'" "t1s = Some b # t1s'"
          by blast
        let ?r = "\<lambda>s'. Option.bind (UnWind (length (mTrail s)) s') R"
        let ?r' = "\<lambda>s'. Option.bind (UnWind (length (mTrail s)) s') R'"
        have r: "le_Retry ?r ?r'" using R by (rule le_Retry_bind)
        have k: "le_Continuation (\<lambda>(Q::Retry) s'. UnifyTerms n t0s' t1s' K ?r (A - 1) s')
            (\<lambda>(Q::Retry) s'. UnifyTerms m' t0s' t1s' K' ?r' (A - 1) s')"
          unfolding le_Continuation_def using IH2 [OF m'(2) K r] by blast
        from IH1 [OF m'(2) k r, of a b s x] run A show ?thesis
          by (simp add: ts m'(1) UnifyTerms_pair)
      qed
    qed
  qed
qed

lemma Unify_depth_mono:
  "n \<le> m \<Longrightarrow> le_Continuation K K' \<Longrightarrow> le_Retry R R' \<Longrightarrow>
   Unify n t0 t1 K R s = Some x \<Longrightarrow> Unify m t0 t1 K' R' s = Some x"
  using Unify_UnifyTerms_depth_mono by blast

lemma Member_depth_mono:
  "(\<forall>m K K' R R' Item List s x. n \<le> m \<longrightarrow> le_Continuation K K' \<longrightarrow> le_Retry R R' \<longrightarrow>
      Member0 n Item List K R s = Some x \<longrightarrow> Member0 m Item List K' R' s = Some x) \<and>
   (\<forall>m K K' R R' Item List s x. n \<le> m \<longrightarrow> le_Continuation K K' \<longrightarrow> le_Retry R R' \<longrightarrow>
      Member1 n Item List K R s = Some x \<longrightarrow> Member1 m Item List K' R' s = Some x)"
proof (induction n)
  case 0
  show ?case by simp
next
  case (Suc n)
  have IH0: "Member0 n Item List K R s = Some x \<Longrightarrow> Member0 m Item List K' R' s = Some x"
    if "n \<le> m" "le_Continuation K K'" "le_Retry R R'" for m K K' R R' Item List s x
    using Suc that by blast
  have IH1: "Member1 n Item List K R s = Some x \<Longrightarrow> Member1 m Item List K' R' s = Some x"
    if "n \<le> m" "le_Continuation K K'" "le_Retry R R'" for m K K' R R' Item List s x
    using Suc that by blast
  show ?case
  proof (intro conjI allI impI)
    fix m :: nat and K K' :: Continuation and R R' :: Retry and Item List :: addr
      and s x :: state
    assume m: "Suc n \<le> m" and K: "le_Continuation K K'" and R: "le_Retry R R'"
      and run: "Member0 (Suc n) Item List K R s = Some x"
    from m obtain m' where m': "m = Suc m'" "n \<le> m'" by (cases m) auto
    obtain v s1 where v: "mkVar s = (v, s1)" by (cases "mkVar s")
    obtain A1 s2 where A1: "mkAtom2 ''.'' Item v s1 = (A1, s2)" by (cases "mkAtom2 ''.'' Item v s1")
    let ?r = "\<lambda>s'. Option.bind (UnWind (length (mTrail s2)) s') (Member1 n Item List K R)"
    let ?r' = "\<lambda>s'. Option.bind (UnWind (length (mTrail s2)) s') (Member1 m' Item List K' R')"
    have "le_Retry (Member1 n Item List K R) (Member1 m' Item List K' R')"
      unfolding le_Retry_def using IH1 [OF m'(2) K R] by blast
    then have r: "le_Retry ?r ?r'" by (rule le_Retry_bind)
    have k: "le_Continuation (\<lambda>R s'. K R s') (\<lambda>R s'. K' R s')" using K by simp
    from Unify_depth_mono [OF m'(2) k r, of List A1 s2 x] run
    show "Member0 m Item List K' R' s = Some x"
      by (simp add: m'(1) v A1)
  next
    fix m :: nat and K K' :: Continuation and R R' :: Retry and Item List :: addr
      and s x :: state
    assume m: "Suc n \<le> m" and K: "le_Continuation K K'" and R: "le_Retry R R'"
      and run: "Member1 (Suc n) Item List K R s = Some x"
    from m obtain m' where m': "m = Suc m'" "n \<le> m'" by (cases m) auto
    obtain H s1 where H: "mkVar s = (H, s1)" by (cases "mkVar s")
    obtain T s2 where T: "mkVar s1 = (T, s2)" by (cases "mkVar s1")
    obtain A1 s3 where A1: "mkAtom2 ''.'' H T s2 = (A1, s3)" by (cases "mkAtom2 ''.'' H T s2")
    let ?r = "\<lambda>s'. Option.bind (UnWind (length (mTrail s3)) s') R"
    let ?r' = "\<lambda>s'. Option.bind (UnWind (length (mTrail s3)) s') R'"
    have r: "le_Retry ?r ?r'" using R by (rule le_Retry_bind)
    have k: "le_Continuation (\<lambda>R s'. Member0 n Item T K R s') (\<lambda>R s'. Member0 m' Item T K' R s')"
      unfolding le_Continuation_def using IH0 [OF m'(2) K] by blast
    from Unify_depth_mono [OF m'(2) k r, of List A1 s3 x] run
    show "Member1 m Item List K' R' s = Some x"
      by (simp add: m'(1) H T A1)
  qed
qed

lemma Print_depth_mono:
  "(\<forall>m Root s x. n \<le> m \<longrightarrow> Print n Root s = Some x \<longrightarrow> Print m Root s = Some x) \<and>
   (\<forall>m a i s x. n \<le> m \<longrightarrow> PrintArgs n a i s = Some x \<longrightarrow> PrintArgs m a i s = Some x)"
proof (induction n)
  case 0
  show ?case by simp
next
  case (Suc n)
  have IH1: "Print n Root s = Some x \<Longrightarrow> Print m Root s = Some x"
    if "n \<le> m" for m Root s x
    using Suc that by blast
  have IH2: "PrintArgs n a i s = Some x \<Longrightarrow> PrintArgs m a i s = Some x"
    if "n \<le> m" for m a i s x
    using Suc that by blast
  show ?case
  proof (intro conjI allI impI)
    fix m Root s x
    assume m: "Suc n \<le> m" and run: "Print (Suc n) Root s = Some x"
    from m obtain m' where m': "m = Suc m'" "n \<le> m'" by (cases m) auto
    show "Print m Root s = Some x"
    proof (cases "Deref Root (heap s)")
      case None
      with run show ?thesis by simp
    next
      case (Some t)
      show ?thesis
      proof (cases "lookup (heap s) t")
        case None
        with run Some show ?thesis by simp
      next
        case node: (Some node)
        show ?thesis
        proof (cases node)
          case (TVariable v)
          with run Some node show ?thesis by (simp add: m'(1))
        next
          case (TAtom a)
          with run Some node obtain y where
            y: "PrintArgs n a 0 (printf (mName a @ ''('') s) = Some y" "x = printf '')'' y"
            by (auto simp: bind_eq_Some_conv)
          from IH2 [OF m'(2) y(1)] y(2) Some node TAtom show ?thesis
            by (simp add: m'(1))
        qed
      qed
    qed
  next
    fix m a i s x
    assume m: "Suc n \<le> m" and run: "PrintArgs (Suc n) a i s = Some x"
    from m obtain m' where m': "m = Suc m'" "n \<le> m'" by (cases m) auto
    show "PrintArgs m a i s = Some x"
    proof (cases "i < mArity a")
      case False
      with run show ?thesis by (simp add: m'(1))
    next
      case True
      with run obtain p where p: "0 \<le> i" "nat i < length (mTerms a)" "mTerms a ! nat i = Some p"
        "Option.bind (Print n p s) (PrintArgs n a (i + 1)) = Some x"
        by (auto split: if_splits option.splits)
      from p(4) obtain y where y: "Print n p s = Some y" "PrintArgs n a (i + 1) y = Some x"
        by (auto simp: bind_eq_Some_conv)
      from IH1 [OF m'(2) y(1)] IH2 [OF m'(2) y(2)] True p(1-3) show ?thesis
        by (simp add: m'(1))
    qed
  qed
qed

lemma Print_mono: "n \<le> m \<Longrightarrow> Print n Root s = Some x \<Longrightarrow> Print m Root s = Some x"
  using Print_depth_mono by blast

lemma Member0_depth_mono:
  "n \<le> m \<Longrightarrow> le_Continuation K K' \<Longrightarrow> le_Retry R R' \<Longrightarrow>
   Member0 n Item List K R s = Some x \<Longrightarrow> Member0 m Item List K' R' s = Some x"
  using Member_depth_mono by blast

lemma main_query_depth_mono:
  assumes nm: "n \<le> m" and run: "main_query n item list list2 R s = Some x"
  shows "main_query m item list list2 R s = Some x"
proof -
  let ?Kp = "\<lambda>n (R::Retry) s'. Option.bind (Print n item s') R"
  have Kp: "le_Continuation (?Kp n) (?Kp m)"
    unfolding le_Continuation_def
  proof (intro allI impI)
    fix R R' :: Retry and s x :: state
    assume R: "le_Retry R R'" and b: "Option.bind (Print n item s) R = Some x"
    then obtain y where y: "Print n item s = Some y" "R y = Some x"
      by (auto simp: bind_eq_Some_conv)
    from Print_mono [OF nm y(1)] le_RetryD [OF R y(2)]
    show "Option.bind (Print m item s) R' = Some x" by simp
  qed
  have K1: "le_Continuation (\<lambda>R. Member0 n item list2 (?Kp n) R)
      (\<lambda>R. Member0 m item list2 (?Kp m) R)"
    unfolding le_Continuation_def
  proof (intro allI impI)
    fix R R' :: Retry and s x :: state
    assume "le_Retry R R'" and "Member0 n item list2 (?Kp n) R s = Some x"
    then show "Member0 m item list2 (?Kp m) R' s = Some x"
      by (rule Member0_depth_mono [OF nm Kp])
  qed
  from run have "Member0 n item list (\<lambda>R. Member0 n item list2 (?Kp n) R) R s = Some x"
    by (simp add: main_query_def)
  from Member0_depth_mono [OF nm K1 le_Retry_refl this]
  show ?thesis by (simp add: main_query_def)
qed

subsection \<open>The example states\<close>

lemma example_eq:
  "example =
     \<lparr>heap = [TVariable \<lparr>mIsBound = False, mReference = None\<rparr>,
              TVariable \<lparr>mIsBound = False, mReference = None\<rparr>,
              TAtom \<lparr>mName = ''f'', mArity = 1, mTerms = Some 0 # replicate 9 None\<rparr>,
              TAtom \<lparr>mName = ''f'', mArity = 2, mTerms = Some 0 # Some 1 # replicate 8 None\<rparr>,
              TAtom \<lparr>mName = ''g'', mArity = 1, mTerms = Some 0 # replicate 9 None\<rparr>],
      mTrail = [], out = []\<rparr>"
  by (simp add: example_def mkAtom1_def mkAtom2_def mkVar_def new_Term_def initial_def
      numeral_eq_Suc)

lemma nested_example_eq:
  "nested_example =
     \<lparr>heap = [TVariable \<lparr>mIsBound = False, mReference = None\<rparr>,
              TVariable \<lparr>mIsBound = False, mReference = None\<rparr>,
              TAtom \<lparr>mName = ''a'', mArity = 0, mTerms = replicate 10 None\<rparr>,
              TAtom \<lparr>mName = ''b'', mArity = 0, mTerms = replicate 10 None\<rparr>,
              TAtom \<lparr>mName = ''c'', mArity = 0, mTerms = replicate 10 None\<rparr>,
              TAtom \<lparr>mName = ''d'', mArity = 0, mTerms = replicate 10 None\<rparr>,
              TAtom \<lparr>mName = ''g'', mArity = 2, mTerms = Some 0 # Some 1 # replicate 8 None\<rparr>,
              TAtom \<lparr>mName = ''g'', mArity = 2, mTerms = Some 3 # Some 4 # replicate 8 None\<rparr>,
              TAtom \<lparr>mName = ''f'', mArity = 2, mTerms = Some 6 # Some 2 # replicate 8 None\<rparr>,
              TAtom \<lparr>mName = ''f'', mArity = 2, mTerms = Some 7 # Some 5 # replicate 8 None\<rparr>],
      mTrail = [], out = []\<rparr>"
  by (simp add: nested_example_def mkAtom0_def mkAtom2_def mkVar_def new_Term_def initial_def
      numeral_eq_Suc)

lemma ground_example_eq:
  "ground_example =
     \<lparr>heap = [TAtom \<lparr>mName = ''a'', mArity = 0, mTerms = replicate 10 None\<rparr>,
              TAtom \<lparr>mName = ''b'', mArity = 0, mTerms = replicate 10 None\<rparr>,
              TAtom \<lparr>mName = ''f'', mArity = 2, mTerms = Some 0 # Some 1 # replicate 8 None\<rparr>,
              TAtom \<lparr>mName = ''a'', mArity = 0, mTerms = replicate 10 None\<rparr>,
              TAtom \<lparr>mName = ''b'', mArity = 0, mTerms = replicate 10 None\<rparr>,
              TAtom \<lparr>mName = ''f'', mArity = 2, mTerms = Some 3 # Some 4 # replicate 8 None\<rparr>,
              TAtom \<lparr>mName = ''f'', mArity = 2, mTerms = Some 3 # Some 3 # replicate 8 None\<rparr>],
      mTrail = [], out = []\<rparr>"
  by (simp add: ground_example_def mkAtom0_def mkAtom2_def new_Term_def initial_def numeral_eq_Suc)

lemma repeated_variable_eq:
  "repeated_variable =
     \<lparr>heap = [TVariable \<lparr>mIsBound = False, mReference = None\<rparr>,
              TAtom \<lparr>mName = ''f'', mArity = 2, mTerms = Some 0 # Some 0 # replicate 8 None\<rparr>],
      mTrail = [], out = []\<rparr>"
  by (simp add: repeated_variable_def mkAtom2_def mkVar_def new_Term_def initial_def numeral_eq_Suc)

lemma Unify_repeated_variable: "Unify n 1 1 K R repeated_variable = None"
proof -
  let ?f = "TAtom \<lparr>mName = ''f'', mArity = 2, mTerms = Some 0 # Some 0 # replicate 8 None\<rparr>"
  let ?s = "repeated_variable"
  let ?s1 = "?s\<lparr>heap := (heap ?s)[0 := TVariable \<lparr>mIsBound = True, mReference = Some 0\<rparr>],
      mTrail := mTrail ?s @ [0]\<rparr>"
  have l0: "lookup (heap ?s) 0 = Some (TVariable \<lparr>mIsBound = False, mReference = None\<rparr>)"
    and l1: "lookup (heap ?s) 1 = Some ?f"
    by (simp_all add: repeated_variable_eq lookup_def)
  have d0: "Deref 0 (heap ?s) = Some 0"
    by (rule Deref_not_bound_var [OF l0]) (simp add: bound_node_def)
  have d1: "Deref 1 (heap ?s) = Some 1"
    by (rule Deref_not_bound_var [OF l1]) (simp add: bound_node_def)
  have loop: "Deref 0 (heap ?s1) = None"
    by (simp add: repeated_variable_eq Deref_self_reference)
  have second: "Unify k 0 0 K' R' ?s1 = None" for k K' R'
  proof (cases k)
    case 0
    then show ?thesis by (simp add: Unify.simps(1))
  next
    case (Suc j)
    have "Unify (Suc j) 0 0 K' R' ?s1 = None"
      by (rule Unify_no_Deref) (rule disjI1, rule loop)
    with Suc show ?thesis by simp
  qed
  have rest: "UnifyTerms k (Some 0 # replicate 8 None) (Some 0 # replicate 8 None) K' R' 1 ?s1 = None"
    for k K' R'
    by (cases k) (simp_all add: UnifyTerms.simps(1) UnifyTerms_pair second)
  have first: "Unify k 0 0 (\<lambda>Q s'. UnifyTerms k (Some 0 # replicate 8 None)
      (Some 0 # replicate 8 None) K' R' 1 s') R'' ?s = None" for k K' R' R''
    by (cases k) (simp_all add: Unify.simps(1) Unify_var0 [OF d0 d0 l0] rest)
  have args: "UnifyTerms k (Some 0 # Some 0 # replicate 8 None)
      (Some 0 # Some 0 # replicate 8 None) K R 2 ?s = None" for k
    by (cases k) (simp_all add: UnifyTerms.simps(1) UnifyTerms_pair first)
  show ?thesis
  proof (cases n)
    case 0
    then show ?thesis by (simp add: Unify.simps(1))
  next
    case (Suc j)
    have "Unify (Suc j) 1 1 K R ?s =
        UnifyTerms j (Some 0 # Some 0 # replicate 8 None) (Some 0 # Some 0 # replicate 8 None)
          K R 2 ?s"
      by (subst Unify_atoms [OF d1 d1 l1 l1]) simp
    then show ?thesis unfolding Suc by (simp only: args)
  qed
qed

lemma main_run:
  "map_option (\<lambda>s. (out s, mTrail s)) (main 20 initial) = Some (''cat()frog()'', [])"
  by code_simp

section \<open>The claims\<close>

text \<open>
  C1. \<open>Unify\<close> dereferences both terms first. If the first dereferenced term is a
  variable, it is unbound; it is bound to the second and the continuation is called
  with the retry \<open>R\<close> itself. If only the second is a variable, that one is bound to
  the first, with the same call. If both are atoms whose names or arities differ, the
  retry is called at once in the unchanged state: no trail entry and no binding is new.
  If names and arities agree, the call is the one of \<open>UnifyTerms\<close> on the two
  argument arrays, with the same continuation and retry. The witness has \<open>f(X)\<close>
  against \<open>f(X, Y)\<close> and against \<open>g(X)\<close>.
\<close>

theorem Unify_algorithm:
  assumes "Deref t0 (heap s) = Some t0dr" and "Deref t1 (heap s) = Some t1dr"
  shows "(\<forall>v0. lookup (heap s) t0dr = Some (TVariable v0) \<longrightarrow>
            \<not> mIsBound v0 \<and>
            Unify (Suc n) t0 t1 K R s =
              K R (s\<lparr>heap := (heap s)[t0dr := TVariable \<lparr>mIsBound = True, mReference = Some t1dr\<rparr>],
                      mTrail := mTrail s @ [t0dr]\<rparr>)) \<and>
         (\<forall>a0 v1. lookup (heap s) t0dr = Some (TAtom a0) \<and>
                  lookup (heap s) t1dr = Some (TVariable v1) \<longrightarrow>
            \<not> mIsBound v1 \<and>
            Unify (Suc n) t0 t1 K R s =
              K R (s\<lparr>heap := (heap s)[t1dr := TVariable \<lparr>mIsBound = True, mReference = Some t0dr\<rparr>],
                      mTrail := mTrail s @ [t1dr]\<rparr>)) \<and>
         (\<forall>a0 a1. lookup (heap s) t0dr = Some (TAtom a0) \<and>
                  lookup (heap s) t1dr = Some (TAtom a1) \<and>
                  (mName a1 \<noteq> mName a0 \<or> mArity a1 \<noteq> mArity a0) \<longrightarrow>
            Unify (Suc n) t0 t1 K R s = R s) \<and>
         (\<forall>a0 a1. lookup (heap s) t0dr = Some (TAtom a0) \<and>
                  lookup (heap s) t1dr = Some (TAtom a1) \<and>
                  mName a1 = mName a0 \<and> mArity a1 = mArity a0 \<longrightarrow>
            Unify (Suc n) t0 t1 K R s =
              UnifyTerms n (mTerms a0) (mTerms a1) K R (mArity a0) s)"
proof (intro conjI allI impI)
  fix v0 assume v0: "lookup (heap s) t0dr = Some (TVariable v0)"
  then show "Unify (Suc n) t0 t1 K R s =
      K R (s\<lparr>heap := (heap s)[t0dr := TVariable \<lparr>mIsBound = True, mReference = Some t1dr\<rparr>],
              mTrail := mTrail s @ [t0dr]\<rparr>)"
    by (rule Unify_var0 [OF assms])
  from Deref_Some [OF assms(1)] v0 show "\<not> mIsBound v0"
    by (auto simp: lookup_def bound_node_def split: if_splits)
next
  fix a0 v1
  assume *: "lookup (heap s) t0dr = Some (TAtom a0) \<and> lookup (heap s) t1dr = Some (TVariable v1)"
  then show "Unify (Suc n) t0 t1 K R s =
      K R (s\<lparr>heap := (heap s)[t1dr := TVariable \<lparr>mIsBound = True, mReference = Some t0dr\<rparr>],
              mTrail := mTrail s @ [t1dr]\<rparr>)"
    using Unify_var1 [OF assms] by blast
  from Deref_Some [OF assms(2)] * show "\<not> mIsBound v1"
    by (auto simp: lookup_def bound_node_def split: if_splits)
next
  fix a0 a1
  assume "lookup (heap s) t0dr = Some (TAtom a0) \<and> lookup (heap s) t1dr = Some (TAtom a1) \<and>
      (mName a1 \<noteq> mName a0 \<or> mArity a1 \<noteq> mArity a0)"
  then show "Unify (Suc n) t0 t1 K R s = R s"
    using Unify_atoms [OF assms, of a0 a1 n K R] by auto
next
  fix a0 a1
  assume "lookup (heap s) t0dr = Some (TAtom a0) \<and> lookup (heap s) t1dr = Some (TAtom a1) \<and>
      mName a1 = mName a0 \<and> mArity a1 = mArity a0"
  then show "Unify (Suc n) t0 t1 K R s =
      UnifyTerms n (mTerms a0) (mTerms a1) K R (mArity a0) s"
    using Unify_atoms [OF assms, of a0 a1 n K R] by auto
qed

theorem Unify_algorithm_witness:
  "Deref 2 (heap example) = Some 2 \<and> Deref 3 (heap example) = Some 3 \<and>
   Deref 4 (heap example) = Some 4 \<and> Deref 0 (heap example) = Some 0 \<and>
   (\<forall>n K R. Unify (Suc n) 2 3 K R example = R example) \<and>
   (\<forall>n K R. Unify (Suc n) 2 4 K R example = R example) \<and>
   (\<forall>n K R. Unify (Suc n) 0 2 K R example =
      K R (example\<lparr>heap := (heap example)[0 := TVariable \<lparr>mIsBound = True, mReference = Some 2\<rparr>],
                   mTrail := [0]\<rparr>)) \<and>
   (\<forall>n K R. Unify (Suc n) 2 0 K R example =
      K R (example\<lparr>heap := (heap example)[0 := TVariable \<lparr>mIsBound = True, mReference = Some 2\<rparr>],
                   mTrail := [0]\<rparr>)) \<and>
   (\<forall>n K R. Unify (Suc n) 2 2 K R example =
      UnifyTerms n (Some 0 # replicate 9 None) (Some 0 # replicate 9 None) K R 1 example)"
proof -
  have l0: "lookup (heap example) 0 = Some (TVariable \<lparr>mIsBound = False, mReference = None\<rparr>)"
    and l2: "lookup (heap example) 2 =
      Some (TAtom \<lparr>mName = ''f'', mArity = 1, mTerms = Some 0 # replicate 9 None\<rparr>)"
    and l3: "lookup (heap example) 3 =
      Some (TAtom \<lparr>mName = ''f'', mArity = 2, mTerms = Some 0 # Some 1 # replicate 8 None\<rparr>)"
    and l4: "lookup (heap example) 4 =
      Some (TAtom \<lparr>mName = ''g'', mArity = 1, mTerms = Some 0 # replicate 9 None\<rparr>)"
    by (simp_all add: example_eq lookup_def)
  have d0: "Deref 0 (heap example) = Some 0"
    by (rule Deref_not_bound_var [OF l0]) (simp add: bound_node_def)
  have d2: "Deref 2 (heap example) = Some 2"
    by (rule Deref_not_bound_var [OF l2]) (simp add: bound_node_def)
  have d3: "Deref 3 (heap example) = Some 3"
    by (rule Deref_not_bound_var [OF l3]) (simp add: bound_node_def)
  have d4: "Deref 4 (heap example) = Some 4"
    by (rule Deref_not_bound_var [OF l4]) (simp add: bound_node_def)
  have t: "mTrail example = []" by (simp add: example_eq)
  show ?thesis
    using d0 d2 d3 d4 Unify_algorithm [OF d2 d3] Unify_algorithm [OF d2 d4]
      Unify_algorithm [OF d0 d2] Unify_algorithm [OF d2 d0] Unify_algorithm [OF d2 d2]
    by (simp add: l0 l2 l3 l4 t)
qed

text \<open>
  C2. With arity zero \<open>UnifyTerms\<close> calls the continuation with the retry it was
  given. Otherwise it takes the trail size as checkpoint and calls \<open>Unify\<close> on the
  first pair, with the retry that unwinds to the checkpoint and then calls \<open>R\<close>, and
  with the continuation that unifies the remaining pairs under \<open>K\<close> and that retry.
  Started with the trail in order, a call has no result, or calls \<open>K\<close> with \<open>R\<close>
  behind unwindings to checkpoints not below the trail size at the start, or calls
  \<open>R\<close> in a state whose trail is the one at the start and whose store is restored.
  With enough depth the call does return: when all the pairs unify one after the other,
  it calls \<open>K\<close> in the state the last of them has reached; when the pairs \<open>ps\<close>
  unify and \<open>Unify\<close> of the next pair calls its retry in the state \<open>sf\<close>, then
  unwinding \<open>sf\<close> to the trail size at the start returns a state \<open>s''\<close>, with the
  trail of the start and the store restored, and the call is \<open>R\<close> applied to
  \<open>s''\<close>.
\<close>

theorem UnifyTerms_algorithm:
  "UnifyTerms (Suc n) t0s t1s K R 0 s = K R s \<and>
   (Arity \<noteq> 0 \<longrightarrow>
      UnifyTerms (Suc n) (Some a # t0s) (Some b # t1s) K R Arity s =
        Unify n a b
          (\<lambda>R' s'. UnifyTerms n t0s t1s K
                    (\<lambda>s'. Option.bind (UnWind (length (mTrail s)) s') R) (Arity - 1) s')
          (\<lambda>s'. Option.bind (UnWind (length (mTrail s)) s') R) s) \<and>
   (trail_ok s \<longrightarrow>
      (\<forall>K' R'. UnifyTerms m t0s t1s K' R' Arity s = None) \<or>
      (\<exists>s' cs. succeeds_rel s s' cs \<and>
         (\<forall>K' R'. UnifyTerms m t0s t1s K' R' Arity s = K' (unwinds cs R') s')) \<or>
      (\<exists>s'. mTrail s' = mTrail s \<and> restored (heap s) (heap s') \<and> out s' = out s \<and>
         trail_ok s' \<and> (\<forall>K' R'. UnifyTerms m t0s t1s K' R' Arity s = R' s'))) \<and>
   (pairs_unify ps s sk \<longrightarrow>
      (\<exists>N. \<forall>n\<ge>N. \<forall>K' R'. \<exists>Q.
         UnifyTerms n (map (Some \<circ> fst) ps @ t0s) (map (Some \<circ> snd) ps @ t1s) K' R'
           (int (length ps)) s = K' Q sk)) \<and>
   (trail_ok s \<and> pairs_unify ps s sk \<and> Unify_calls_R a b sk sf \<and> int (length ps) < Arity \<longrightarrow>
      (\<exists>s'' N. UnWind (length (mTrail s)) sf = Some s'' \<and>
         mTrail s'' = mTrail s \<and> restored (heap s) (heap s'') \<and> out s'' = out s \<and>
         trail_ok s'' \<and>
         (\<forall>n\<ge>N. \<forall>K' R'.
            UnifyTerms n (map (Some \<circ> fst) ps @ Some a # t0s)
              (map (Some \<circ> snd) ps @ Some b # t1s) K' R' Arity s = R' s'')))"
proof (intro conjI impI)
  show "UnifyTerms (Suc n) t0s t1s K R 0 s = K R s" by (rule UnifyTerms_zero)
next
  assume "Arity \<noteq> 0"
  then show "UnifyTerms (Suc n) (Some a # t0s) (Some b # t1s) K R Arity s =
        Unify n a b
          (\<lambda>R' s'. UnifyTerms n t0s t1s K
                    (\<lambda>s'. Option.bind (UnWind (length (mTrail s)) s') R) (Arity - 1) s')
          (\<lambda>s'. Option.bind (UnWind (length (mTrail s)) s') R) s"
    by (rule UnifyTerms_pair)
next
  assume "trail_ok s"
  then have "outcome (\<lambda>K R. UnifyTerms m t0s t1s K R Arity s) s"
    using outcome_Unify_UnifyTerms by blast
  then show "(\<forall>K' R'. UnifyTerms m t0s t1s K' R' Arity s = None) \<or>
      (\<exists>s' cs. succeeds_rel s s' cs \<and>
         (\<forall>K' R'. UnifyTerms m t0s t1s K' R' Arity s = K' (unwinds cs R') s')) \<or>
      (\<exists>s'. mTrail s' = mTrail s \<and> restored (heap s) (heap s') \<and> out s' = out s \<and>
         trail_ok s' \<and> (\<forall>K' R'. UnifyTerms m t0s t1s K' R' Arity s = R' s'))"
    unfolding outcome_def fails_rel_def by blast
next
  assume "pairs_unify ps s sk"
  then show "\<exists>N. \<forall>n\<ge>N. \<forall>K' R'. \<exists>Q.
         UnifyTerms n (map (Some \<circ> fst) ps @ t0s) (map (Some \<circ> snd) ps @ t1s) K' R'
           (int (length ps)) s = K' Q sk"
    by (rule UnifyTerms_calls_K)
next
  assume "trail_ok s \<and> pairs_unify ps s sk \<and> Unify_calls_R a b sk sf \<and> int (length ps) < Arity"
  then have "pairs_unify ps s sk" and "Unify_calls_R a b sk sf" and "trail_ok s"
    and "int (length ps) < Arity"
    by simp_all
  then have "\<exists>s'' N. UnWind (length (mTrail s)) sf = Some s'' \<and> fails_rel s s'' \<and>
     (\<forall>n\<ge>N. \<forall>K R.
        UnifyTerms n (map (Some \<circ> fst) ps @ Some a # t0s) (map (Some \<circ> snd) ps @ Some b # t1s)
          K R Arity s = R s'')"
    by (rule UnifyTerms_calls_R)
  then show "\<exists>s'' N. UnWind (length (mTrail s)) sf = Some s'' \<and>
         mTrail s'' = mTrail s \<and> restored (heap s) (heap s'') \<and> out s'' = out s \<and>
         trail_ok s'' \<and>
         (\<forall>n\<ge>N. \<forall>K' R'.
            UnifyTerms n (map (Some \<circ> fst) ps @ Some a # t0s)
              (map (Some \<circ> snd) ps @ Some b # t1s) K' R' Arity s = R' s'')"
    unfolding fails_rel_def by blast
qed

theorem UnifyTerms_algorithm_witness:
  "trail_ok nested_example \<and>
   (\<forall>n K R. UnifyTerms (Suc n) (replicate 10 None) (replicate 10 None) K R 0 nested_example =
      K R nested_example) \<and>
   (\<forall>K R. UnifyTerms 7 (Some 6 # Some 2 # replicate 8 None) (Some 7 # Some 5 # replicate 8 None)
      K R 2 nested_example = R nested_unwound) \<and>
   (\<forall>K R. UnifyTerms 2 (Some 6 # Some 2 # replicate 8 None) (Some 7 # Some 5 # replicate 8 None)
      K R 2 nested_example = None) \<and>
   pairs_unify [(0, 3), (1, 4)] nested_example nested_bound \<and>
   (\<exists>N. \<forall>n\<ge>N. \<forall>K R. \<exists>Q.
      UnifyTerms n (Some 0 # Some 1 # replicate 8 None) (Some 3 # Some 4 # replicate 8 None)
        K R 2 nested_example = K Q nested_bound) \<and>
   pairs_unify [(6, 7)] nested_example nested_bound \<and>
   Unify_calls_R 2 5 nested_bound nested_bound \<and>
   UnWind 0 nested_bound = Some nested_unwound \<and>
   (\<exists>N. \<forall>n\<ge>N. \<forall>K R.
      UnifyTerms n (Some 6 # Some 2 # replicate 8 None) (Some 7 # Some 5 # replicate 8 None)
        K R 2 nested_example = R nested_unwound) \<and>
   (\<forall>n K R.
      UnifyTerms (Suc n) (Some 6 # Some 2 # replicate 8 None) (Some 7 # Some 5 # replicate 8 None)
        K R 2 nested_example =
      Unify n 6 7
        (\<lambda>R' s'. UnifyTerms n (Some 2 # replicate 8 None) (Some 5 # replicate 8 None) K
                  (\<lambda>s'. Option.bind (UnWind 0 s') R) 1 s')
        (\<lambda>s'. Option.bind (UnWind 0 s') R) nested_example)"
proof -
  let ?s1 = "nested_example\<lparr>heap := (heap nested_example)
      [0 := TVariable \<lparr>mIsBound = True, mReference = Some 3\<rparr>],
      mTrail := mTrail nested_example @ [0]\<rparr>"
  have ok: "trail_ok nested_example" by (simp add: nested_example_eq trail_ok_def)
  have t0: "mTrail nested_example = []" by (simp add: nested_example_eq)
  have d3: "Deref 3 (heap nested_example) = Some 3"
    by (rule Deref_Atom [where at = "\<lparr>mName = ''b'', mArity = 0, mTerms = replicate 10 None\<rparr>"])
       (simp add: nested_example_eq lookup_def)
  have d4: "Deref 4 (heap ?s1) = Some 4"
    by (rule Deref_Atom [where at = "\<lparr>mName = ''c'', mArity = 0, mTerms = replicate 10 None\<rparr>"])
       (simp add: nested_example_eq lookup_def)
  have k1: "Unify_calls_K 0 3 nested_example ?s1"
    by (rule Unify_calls_K_variable
          [OF _ _ d3, where v = "\<lparr>mIsBound = False, mReference = None\<rparr>"])
       (simp_all add: nested_example_eq lookup_def)
  have k2: "Unify_calls_K 1 4 ?s1
      (?s1\<lparr>heap := (heap ?s1)[1 := TVariable \<lparr>mIsBound = True, mReference = Some 4\<rparr>],
           mTrail := mTrail ?s1 @ [1]\<rparr>)"
    by (rule Unify_calls_K_variable
          [OF _ _ d4, where v = "\<lparr>mIsBound = False, mReference = None\<rparr>"])
       (simp_all add: nested_example_eq lookup_def)
  have b: "?s1\<lparr>heap := (heap ?s1)[1 := TVariable \<lparr>mIsBound = True, mReference = Some 4\<rparr>],
           mTrail := mTrail ?s1 @ [1]\<rparr> = nested_bound"
    by (simp add: nested_bound_def nested_example_eq)
  have pu: "pairs_unify [(0, 3), (1, 4)] nested_example nested_bound"
    using k1 k2 unfolding b by auto
  have inner: "\<exists>N. \<forall>n\<ge>N. \<forall>K R. \<exists>Q.
      UnifyTerms n (Some 0 # Some 1 # replicate 8 None) (Some 3 # Some 4 # replicate 8 None)
        K R 2 nested_example = K Q nested_bound"
    using pu UnifyTerms_algorithm [where s = nested_example and ps = "[(0, 3), (1, 4)]"
        and sk = nested_bound and ?t0s.0 = "replicate 8 None" and ?t1s.0 = "replicate 8 None"]
    by simp
  have k67: "Unify_calls_K 6 7 nested_example nested_bound"
    by (rule Unify_calls_K_atoms
          [where ?a0.0 = "\<lparr>mName = ''g'', mArity = 2, mTerms = Some 0 # Some 1 # replicate 8 None\<rparr>"
             and ?a1.0 = "\<lparr>mName = ''g'', mArity = 2, mTerms = Some 3 # Some 4 # replicate 8 None\<rparr>"])
       (use inner in \<open>simp_all add: nested_example_eq lookup_def\<close>)
  have pu2: "pairs_unify [(6, 7)] nested_example nested_bound"
    using k67 by simp
  have r: "Unify_calls_R 2 5 nested_bound nested_bound"
    by (rule Unify_calls_R_atoms
          [where ?a0.0 = "\<lparr>mName = ''a'', mArity = 0, mTerms = replicate 10 None\<rparr>"
             and ?a1.0 = "\<lparr>mName = ''d'', mArity = 0, mTerms = replicate 10 None\<rparr>"])
       (simp_all add: nested_bound_def nested_example_eq lookup_def)
  have tr: "mTrail nested_bound = [] @ [0, 1]" by (simp add: nested_bound_def)
  have vars: "list_all (is_Variable (heap nested_bound)) [0, 1]"
    by (simp add: nested_bound_def nested_example_eq is_Variable_def lookup_def variable_node_def)
  have u: "UnWind 0 nested_bound = Some nested_unwound"
    using UnWind_append [OF tr vars]
    by (simp add: nested_bound_def nested_unwound_def nested_example_eq unbound_again_def
        clear_node_def)
  have fail: "\<exists>N. \<forall>n\<ge>N. \<forall>K R.
      UnifyTerms n (Some 6 # Some 2 # replicate 8 None) (Some 7 # Some 5 # replicate 8 None)
        K R 2 nested_example = R nested_unwound"
    using ok pu2 r u t0
      UnifyTerms_algorithm [where s = nested_example and ps = "[(6, 7)]" and sk = nested_bound
        and sf = nested_bound and a = 2 and b = 5 and Arity = 2
        and ?t0s.0 = "replicate 8 None" and ?t1s.0 = "replicate 8 None"]
    by auto
  have step: "UnifyTerms (Suc n) (Some 6 # Some 2 # replicate 8 None)
        (Some 7 # Some 5 # replicate 8 None) K R 2 nested_example =
      Unify n 6 7
        (\<lambda>R' s'. UnifyTerms n (Some 2 # replicate 8 None) (Some 5 # replicate 8 None) K
                  (\<lambda>s'. Option.bind (UnWind 0 s') R) 1 s')
        (\<lambda>s'. Option.bind (UnWind 0 s') R) nested_example" for n K R
    using UnifyTerms_algorithm [where s = nested_example and Arity = 2 and a = 6 and b = 7
        and ?t0s.0 = "Some 2 # replicate 8 None" and ?t1s.0 = "Some 5 # replicate 8 None"
        and n = n and K = K and R = R]
    by (simp add: t0)
  have zero: "UnifyTerms (Suc n) (replicate 10 None) (replicate 10 None) K R 0 nested_example =
      K R nested_example" for n K R
    using UnifyTerms_algorithm [where s = nested_example and ?t0s.0 = "replicate 10 None"
        and ?t1s.0 = "replicate 10 None" and n = n and K = K and R = R]
    by simp
  have ev: "UnifyTerms 7 (Some 6 # Some 2 # replicate 8 None) (Some 7 # Some 5 # replicate 8 None)
      K R 2 nested_example = R nested_unwound" for K R
    by (simp add: nested_example_eq nested_unwound_def numeral_eq_Suc Unify.simps
        UnifyTerms.simps Deref.simps lookup_def Bind_def set_Reference_def set_IsBound_def
        Add_def UnWind.simps Let_def)
  have ev0: "UnifyTerms 2 (Some 6 # Some 2 # replicate 8 None) (Some 7 # Some 5 # replicate 8 None)
      K R 2 nested_example = None" for K R
    by (simp add: nested_example_eq numeral_eq_Suc Unify.simps
        UnifyTerms.simps Deref.simps lookup_def Bind_def set_Reference_def set_IsBound_def
        Add_def UnWind.simps Let_def)
  show ?thesis
    using ok zero ev ev0 pu inner pu2 r u fail step by simp
qed

text \<open>
  C3. A retry built from the checkpoint \<open>length pre\<close> unwinds and then goes on with
  \<open>R\<close>. Called in a state whose trail is \<open>pre @ post\<close>, the entries of \<open>post\<close>
  being the variables bound since the checkpoint, its unwinding returns, and \<open>R\<close>
  runs in a state where the trail is \<open>pre\<close>, of the checkpoint's length, and every
  variable of \<open>post\<close> is unbound.
\<close>

theorem retry_restores_checkpoint:
  assumes "mTrail s = pre @ post" and "list_all (is_Variable (heap s)) post"
  shows "\<exists>s'. UnWind (length pre) s = Some s' \<and>
           (\<lambda>s. Option.bind (UnWind (length pre) s) R) s = R s' \<and>
           length (mTrail s') = length pre \<and> mTrail s' = pre \<and>
           list_all (\<lambda>v. v < length (heap s') \<and> unbound_node (heap s' ! v)) post \<and>
           out s' = out s"
proof -
  let ?s' = "s\<lparr>heap := fold unbound_again (rev post) (heap s), mTrail := pre\<rparr>"
  have u: "UnWind (length pre) s = Some ?s'"
    using assms by (rule UnWind_append)
  have "list_all (\<lambda>v. v < length (heap ?s') \<and> unbound_node (heap ?s' ! v)) post"
    using assms(2)
    by (auto simp: list_all_iff is_Variable_nth nth_fold_unbound_again unbound_node_clear)
  with u show ?thesis by simp
qed

theorem retry_restores_checkpoint_witness:
  "mTrail bound_example = [] @ [0] \<and> list_all (is_Variable (heap bound_example)) [0] \<and>
   (\<exists>s'. UnWind 0 bound_example = Some s' \<and> mTrail s' = [] \<and>
      unbound_node (heap s' ! 0))"
proof -
  have 1: "mTrail bound_example = [] @ [0]" by (simp add: bound_example_def)
  have 2: "list_all (is_Variable (heap bound_example)) [0]"
    by (simp add: bound_example_def is_Variable_def lookup_def variable_node_def)
  show ?thesis
    using 1 2 retry_restores_checkpoint [OF 1 2] by auto
qed

text \<open>
  C4. For nodes \<open>a\<close> and \<open>b\<close> that hold the ground terms \<open>ta\<close> and \<open>tb\<close>, and
  a call depth of at least \<open>depth ta\<close>, \<open>Unify\<close> calls the continuation when the two
  terms are equal and the retry when they are not, both in the unchanged state. The
  retry passed to the continuation is \<open>R\<close> behind one unwinding to the current trail
  size for each argument of the term.
\<close>

theorem Unify_ground_structural_equality:
  assumes "represents (heap s) a ta" and "represents (heap s) b tb" and "depth ta \<le> n"
  shows "Unify n a b K R s =
     (if ta = tb then K (unwinds (replicate (arity ta) (length (mTrail s))) R) s else R s)"
  using assms by (rule Unify_ground)

theorem Unify_ground_structural_equality_witness:
  "represents (heap ground_example) 2 (Fn ''f'' [Fn ''a'' [], Fn ''b'' []]) \<and>
   represents (heap ground_example) 5 (Fn ''f'' [Fn ''a'' [], Fn ''b'' []]) \<and>
   represents (heap ground_example) 6 (Fn ''f'' [Fn ''a'' [], Fn ''a'' []]) \<and>
   depth (Fn ''f'' [Fn ''a'' [], Fn ''b'' []]) \<le> 8 \<and>
   (\<forall>K R. Unify 8 2 5 K R ground_example = K (unwinds [0, 0] R) ground_example) \<and>
   (\<forall>K R. Unify 8 2 6 K R ground_example = R ground_example)"
proof -
  have r2: "represents (heap ground_example) 2 (Fn ''f'' [Fn ''a'' [], Fn ''b'' []])"
    and r5: "represents (heap ground_example) 5 (Fn ''f'' [Fn ''a'' [], Fn ''b'' []])"
    and r6: "represents (heap ground_example) 6 (Fn ''f'' [Fn ''a'' [], Fn ''a'' []])"
    by (simp_all add: ground_example_eq lookup_def)
  have d: "depth (Fn ''f'' [Fn ''a'' [], Fn ''b'' []]) \<le> 8" by simp
  have t: "mTrail ground_example = []" by (simp add: ground_example_eq)
  show ?thesis
    using r2 r5 r6 d Unify_ground_structural_equality [OF r2 r5 d]
      Unify_ground_structural_equality [OF r2 r6 d]
    by (simp add: t numeral_eq_Suc)
qed

text \<open>
  C5. The query of \<open>main\<close>, \<open>Item\<close> a member of \<open>[cat, dog, frog]\<close> and of
  \<open>[cat, monkey, frog]\<close>, with any bound of at least 20 on the call depth:
  \<open>Print\<close> is reached with \<open>Item\<close> at \<open>cat\<close> and then at \<open>frog\<close> and no third
  time, and whatever the outer retry \<open>R0\<close> is, the run ends by calling it, with the
  trail empty again.
\<close>

theorem main_two_solutions:
  "\<exists>s_end. out s_end = ''cat()frog()'' \<and> mTrail s_end = [] \<and>
     (\<forall>n\<ge>20. main n initial = Some s_end \<and>
        (\<forall>R0. (case main_terms initial of
                 ((item, list, list2), s) \<Rightarrow> main_query n item list list2 R0 s) = R0 s_end))"
proof -
  from main_run obtain s_end where s_end: "main 20 initial = Some s_end"
    "out s_end = ''cat()frog()''" "mTrail s_end = []"
    by (cases "main 20 initial") auto
  obtain item list list2 s where ts: "main_terms initial = ((item, list, list2), s)"
    by (metis prod.exhaust)
  have run: "main_query n item list list2 (\<lambda>s'. Some s') s = Some s_end" if "20 \<le> n" for n
  proof (rule main_query_depth_mono [OF that])
    show "main_query 20 item list list2 (\<lambda>s'. Some s') s = Some s_end"
      using s_end(1) by (simp add: main_def ts)
  qed
  have "main_query n item list list2 R0 s = R0 s_end" if "20 \<le> n" for n R0
    by (subst main_query_outer_retry) (simp add: run [OF that])
  moreover have "main n initial = Some s_end" if "20 \<le> n" for n
    using run [OF that] by (simp add: main_def ts)
  ultimately show ?thesis
    using s_end(2,3) by (auto simp: ts)
qed

theorem main_two_solutions_witness:
  "(20::nat) \<le> 20 \<and>
   (\<exists>s_end. main 20 initial = Some s_end \<and> out s_end = ''cat()frog()'' \<and> mTrail s_end = [])"
  using main_two_solutions by auto

text \<open>
  C6, as stated, has the reference of an unwound variable cleared. Unwinding the
  binding of a variable to the atom \<open>a\<close> leaves the variable unbound with its
  reference still at the atom.
\<close>

theorem UnWind_keeps_reference:
  "UnWind 0 bound_example =
     Some \<lparr>heap = [TVariable \<lparr>mIsBound = False, mReference = Some 1\<rparr>,
                   TAtom \<lparr>mName = ''a'', mArity = 0, mTerms = replicate 10 None\<rparr>],
           mTrail = [], out = []\<rparr>"
proof -
  have "mTrail bound_example = [] @ [0]" by (simp add: bound_example_def)
  moreover have "list_all (is_Variable (heap bound_example)) [0]"
    by (simp add: bound_example_def is_Variable_def lookup_def variable_node_def)
  ultimately have "UnWind (length ([]::addr list)) bound_example =
      Some (bound_example\<lparr>heap := fold unbound_again (rev [0]) (heap bound_example), mTrail := []\<rparr>)"
    by (rule UnWind_append)
  then show ?thesis
    by (simp add: bound_example_def unbound_again_def clear_node_def)
qed

text \<open>
  C6, amended. When the trail is \<open>pre @ post\<close> and the entries of \<open>post\<close> are
  variables, unwinding to the length of \<open>pre\<close> stores \<open>mIsBound = false\<close> into the
  variables of \<open>post\<close>, the last entry first (the log of the stores is \<open>post\<close>
  reversed), and leaves the trail \<open>pre\<close>. Each of these variables keeps its
  \<open>mReference\<close>, and no other node changes. The loop with the log returns the state
  that \<open>UnWind\<close> returns, from every state and to every checkpoint.
\<close>

theorem UnWind_clears_IsBound_only:
  assumes "mTrail s = pre @ post" and "list_all (is_Variable (heap s)) post"
  shows "UnWind (length pre) s =
           Some (s\<lparr>heap := fold unbound_again (rev post) (heap s), mTrail := pre\<rparr>) \<and>
         UnWind_log (length pre) s =
           Some (rev post, s\<lparr>heap := fold unbound_again (rev post) (heap s), mTrail := pre\<rparr>) \<and>
         map_option snd (UnWind_log Index s0) = UnWind Index s0 \<and>
         length (fold unbound_again (rev post) (heap s)) = length (heap s) \<and>
         list_all (\<lambda>v. \<exists>x. lookup (heap s) v = Some (TVariable x) \<and>
                    lookup (fold unbound_again (rev post) (heap s)) v =
                      Some (TVariable (x\<lparr>mIsBound := False\<rparr>))) post \<and>
         list_all (\<lambda>a. a \<in> set post \<or> fold unbound_again (rev post) (heap s) ! a = heap s ! a)
           [0..<length (heap s)]"
proof (intro conjI)
  show "UnWind (length pre) s =
      Some (s\<lparr>heap := fold unbound_again (rev post) (heap s), mTrail := pre\<rparr>)"
    using assms by (rule UnWind_append)
  show "UnWind_log (length pre) s =
      Some (rev post, s\<lparr>heap := fold unbound_again (rev post) (heap s), mTrail := pre\<rparr>)"
    using assms by (rule UnWind_log_append)
  show "map_option snd (UnWind_log Index s0) = UnWind Index s0" by (rule UnWind_log_state)
  show "length (fold unbound_again (rev post) (heap s)) = length (heap s)" by simp
  show "list_all (\<lambda>v. \<exists>x. lookup (heap s) v = Some (TVariable x) \<and>
                    lookup (fold unbound_again (rev post) (heap s)) v =
                      Some (TVariable (x\<lparr>mIsBound := False\<rparr>))) post"
    unfolding list_all_iff
  proof
    fix v assume v: "v \<in> set post"
    with assms(2) have "is_Variable (heap s) v" by (simp add: list_all_iff)
    then obtain x where x: "v < length (heap s)" "heap s ! v = TVariable x"
      by (auto simp: is_Variable_nth variable_node_def split: Term.splits)
    then show "\<exists>x. lookup (heap s) v = Some (TVariable x) \<and>
        lookup (fold unbound_again (rev post) (heap s)) v = Some (TVariable (x\<lparr>mIsBound := False\<rparr>))"
      using v by (simp add: lookup_def nth_fold_unbound_again clear_node_def)
  qed
  show "list_all (\<lambda>a. a \<in> set post \<or> fold unbound_again (rev post) (heap s) ! a = heap s ! a)
      [0..<length (heap s)]"
    by (simp add: list_all_iff nth_fold_unbound_again)
qed

theorem UnWind_clears_IsBound_only_witness:
  "mTrail nested_bound = [] @ [0, 1] \<and> list_all (is_Variable (heap nested_bound)) [0, 1] \<and>
   UnWind 0 nested_bound = Some nested_unwound \<and>
   UnWind_log 0 nested_bound = Some ([1, 0], nested_unwound)"
proof -
  have 1: "mTrail nested_bound = [] @ [0, 1]" by (simp add: nested_bound_def)
  have 2: "list_all (is_Variable (heap nested_bound)) [0, 1]"
    by (simp add: nested_bound_def nested_example_eq is_Variable_def lookup_def variable_node_def)
  show ?thesis
    using 1 2 UnWind_clears_IsBound_only [OF 1 2]
    by (simp add: nested_bound_def nested_unwound_def nested_example_eq unbound_again_def
        clear_node_def)
qed

text \<open>
  C7. Unifying an unbound variable \<open>X\<close> with itself does call the continuation, but
  it binds \<open>X\<close> to itself and records it on the trail; after that \<open>Deref\<close> of \<open>X\<close>
  never returns. So unifying \<open>f(X, X)\<close> with itself has no result, whatever the bound
  on the call depth: the first pair binds \<open>X\<close> to itself and the second never gets
  past \<open>Deref\<close>; neither the continuation nor the retry is called.
\<close>

theorem Unify_variable_with_itself:
  "(\<forall>n K R. Unify (Suc n) 0 0 K R single_variable =
      K R \<lparr>heap = [TVariable \<lparr>mIsBound = True, mReference = Some 0\<rparr>], mTrail = [0], out = []\<rparr>) \<and>
   Deref 0 [TVariable \<lparr>mIsBound = True, mReference = Some 0\<rparr>] = None \<and>
   (\<forall>n K R. Unify n 1 1 K R repeated_variable = None)"
proof -
  have s: "single_variable =
      \<lparr>heap = [TVariable \<lparr>mIsBound = False, mReference = None\<rparr>], mTrail = [], out = []\<rparr>"
    by (simp add: single_variable_def mkVar_def new_Term_def initial_def)
  have l: "lookup (heap single_variable) 0 =
      Some (TVariable \<lparr>mIsBound = False, mReference = None\<rparr>)"
    by (simp add: s lookup_def)
  have d: "Deref 0 (heap single_variable) = Some 0"
    by (rule Deref_not_bound_var [OF l]) (simp add: bound_node_def)
  show ?thesis
    using Unify_var0 [OF d d l] Deref_self_reference [of "[]"] Unify_repeated_variable
    by (simp add: s)
qed

text \<open>
  C8. In a store where every bound variable refers to an allocated node, \<open>Deref\<close> of
  a node from which no reference chain runs into a cycle returns: its result is reached
  from the node along the references of bound variables, and is an atom or an unbound
  variable.
\<close>

theorem Deref_terminates:
  assumes "t < length h" and "refs_valid h"
    and "\<forall>x. (t, x) \<in> (ref_step h)\<^sup>* \<longrightarrow> (x, x) \<notin> (ref_step h)\<^sup>+"
  shows "\<exists>r. Deref t h = Some r \<and> (t, r) \<in> (ref_step h)\<^sup>* \<and> r < length h \<and>
           \<not> bound_node (h ! r)"
  using assms(1,3) by (rule Deref_acyclic [OF assms(2)])

theorem Deref_terminates_witness:
  "0 < length chain_example \<and> refs_valid chain_example \<and> Deref 0 chain_example = Some 2 \<and>
   \<not> bound_node (chain_example ! 2)"
proof -
  have 1: "0 < length chain_example" by (simp add: chain_example_def)
  have 2: "refs_valid chain_example" by (simp add: chain_example_def refs_valid_def)
  have inc: "a < b" if "(a, b) \<in> ref_step chain_example" for a b
    using that
    by (auto simp: ref_step_def chain_example_def lookup_def nth_Cons' split: if_splits)
  have 3: "\<forall>x. (0, x) \<in> (ref_step chain_example)\<^sup>* \<longrightarrow> (x, x) \<notin> (ref_step chain_example)\<^sup>+"
    using increasing_irrefl [of "ref_step chain_example"] inc by blast
  have "Deref 0 chain_example = Some 2"
    by (subst Deref.simps, simp add: chain_example_def lookup_def)+
  then show ?thesis
    using 1 2 Deref_terminates [OF 1 2 3] by (auto simp: chain_example_def bound_node_def)
qed

text \<open>
  C9, as stated, asks for a compound of any number of arguments. The constructors take
  none, one or two: a call with three has no result.
\<close>

theorem mkAtom_no_third_argument:
  "mkAtom ''f'' [0, 1, 0] example = None"
  by (simp add: mkAtom_def)

text \<open>
  C9, amended. \<open>mkAtom\<close> builds an atom from a name and at most two arguments, in
  order at the front of the ten entries of \<open>mTerms\<close>, with \<open>mArity\<close> their number;
  for more than two arguments there is no constructor.
\<close>

theorem mkAtom_at_most_two_arguments:
  "(length args \<le> 2 \<longrightarrow>
      mkAtom Name args s =
        Some (length (heap s),
              s\<lparr>heap := heap s @
                 [TAtom \<lparr>mName = Name, mArity = int (length args),
                         mTerms = map Some args @ replicate (10 - length args) None\<rparr>]\<rparr>)) \<and>
   (2 < length args \<longrightarrow> mkAtom Name args s = None)"
proof (cases args)
  case Nil
  then show ?thesis by (simp add: mkAtom_def mkAtom0_def new_Term_def)
next
  case 1: (Cons a0 as1)
  show ?thesis
  proof (cases as1)
    case Nil
    with 1 show ?thesis
      by (simp add: mkAtom_def mkAtom1_def new_Term_def numeral_eq_Suc)
  next
    case 2: (Cons a1 as2)
    show ?thesis
    proof (cases as2)
      case Nil
      with 1 2 show ?thesis
        by (simp add: mkAtom_def mkAtom2_def new_Term_def numeral_eq_Suc)
    next
      case (Cons a2 as3)
      with 1 2 show ?thesis by (simp add: mkAtom_def)
    qed
  qed
qed

theorem mkAtom_at_most_two_arguments_witness:
  "length [0::nat, 1] \<le> 2 \<and>
   mkAtom ''f'' [0, 1] example =
     Some (5, example\<lparr>heap := heap example @
        [TAtom \<lparr>mName = ''f'', mArity = 2, mTerms = Some 0 # Some 1 # replicate 8 None\<rparr>]\<rparr>) \<and>
   2 < length [0::nat, 1, 0] \<and> mkAtom ''f'' [0, 1, 0] initial = None"
  using mkAtom_at_most_two_arguments [of "[0, 1]" "''f''" example]
    mkAtom_at_most_two_arguments [of "[0, 1, 0]" "''f''" initial]
  by (simp add: example_eq)




end
